theory Spec2Isabelle
  imports Complex_Main "HOL-Library.AList"
begin

section \<open>Python values of compare.py\<close>

text \<open>
  The exceptions that the modelled functions can let escape: the lookup
  \<^verbatim>\<open>results[x.name]\<close> of \<^verbatim>\<open>process_one_doc\<close> raises KeyError, the two float
  divisions of \<^verbatim>\<open>evaluate\<close> raise ZeroDivisionError, and \<^verbatim>\<open>cvswriter.writerow\<close> raises
  UnicodeEncodeError. The ValueError of the tuple unpacking in \<^verbatim>\<open>read_evaluation_data\<close>
  is caught there and is a branch of that function.
\<close>

datatype py_error = KeyError | ZeroDivisionError | UnicodeEncodeError

text \<open>
  What a thread leaves in \<^verbatim>\<open>Thr.outputs\<close> for one analyzer: a string (the label)
  or a tuple. Of a tuple the code reads the truth value of its first component only;
  \<open>Tuple ok msg\<close> is a tuple whose first component has truth value \<open>ok\<close> (a tuple
  with no component, at which \<^verbatim>\<open>output[0]\<close> would raise, is not among the outputs).
\<close>

datatype py_output = Str string | Tuple bool string

text \<open>
  A dict is the list of its items; an assignment \<^verbatim>\<open>d[k] = v\<close> is \<open>AList.update k v d\<close>,
  a lookup is \<open>map_of d k\<close>. The keys of a dict are distinct.
\<close>

type_synonym ('k, 'v) dict = "('k \<times> 'v) list"

text \<open>A \<^verbatim>\<open>collections.Counter\<close>: a dict whose missing keys read as zero.\<close>

type_synonym 'v counter = "(string, 'v) dict"

definition counter_get :: "'v::zero counter \<Rightarrow> string \<Rightarrow> 'v" where
  "counter_get c name = (case map_of c name of None \<Rightarrow> 0 | Some v \<Rightarrow> v)"

text \<open>\<^verbatim>\<open>c[name] += n\<close>\<close>

definition counter_incr :: "nat counter \<Rightarrow> string \<Rightarrow> nat \<Rightarrow> nat counter" where
  "counter_incr c name n = AList.update name (counter_get c name + n) c"

text \<open>
  \<^verbatim>\<open>a += b\<close> on Counters is \<^verbatim>\<open>a = a + b\<close>: a new Counter that receives, for every
  element of \<open>a\<close>, the sum of both counts when it is positive, and then every element
  of \<open>b\<close> that is not in \<open>a\<close> and has a positive count.
\<close>

definition counter_add :: "nat counter \<Rightarrow> nat counter \<Rightarrow> nat counter" where
  "counter_add a b =
     (let result = fold (\<lambda>(elem, count) result.
                      let newcount = count + counter_get b elem
                      in if newcount > 0 then AList.update elem newcount result else result)
                    a []
      in fold (\<lambda>(elem, count) result.
                 if elem \<notin> fst ` set a \<and> count > 0 then AList.update elem count result
                 else result)
              b result)"

section \<open>read_evaluation_data\<close>

text \<open>
  Strings are lists of characters. \<^verbatim>\<open>strip()\<close> without argument removes leading and
  trailing whitespace; \<open>isspace\<close> lists the whitespace characters of a unicode string
  among the code points below 256.
\<close>

definition isspace :: "char \<Rightarrow> bool" where
  "isspace c = (of_char c \<in> {9, 10, 11, 12, 13, 28, 29, 30, 31, 32, 133, 160 :: nat})"

definition strip :: "string \<Rightarrow> string" where
  "strip s = rev (dropWhile isspace (rev (dropWhile isspace s)))"

text \<open>\<^verbatim>\<open>line.split('\t')\<close>: the pieces between the tabs, one more than there are tabs.\<close>

fun split_tab :: "string \<Rightarrow> string list" where
  "split_tab [] = [[]]"
| "split_tab (c # cs) =
     (if c = CHR 0x09 then [] # split_tab cs
      else (case split_tab cs of [] \<Rightarrow> [[c]] | p # ps \<Rightarrow> (c # p) # ps))"

text \<open>
  The body of the loop over the lines of the file. The unpacking
  \<^verbatim>\<open>document, key = line.split('\t')\<close> succeeds on exactly two pieces; on any other
  number it raises ValueError before anything is assigned, and the handler takes the whole
  line as the document.
\<close>

definition read_line ::
  "string \<Rightarrow> (nat, string) dict \<times> (nat, string) dict \<times> nat
          \<Rightarrow> (nat, string) dict \<times> (nat, string) dict \<times> nat" where
  "read_line line = (\<lambda>(doc_id2doc, doc_id2key, doc_id).
     if strip line = [] then (doc_id2doc, doc_id2key, doc_id)
     else (case split_tab line of
             [document, key] \<Rightarrow>
               (AList.update doc_id (strip document) doc_id2doc,
                AList.update doc_id (strip key) doc_id2key,
                doc_id + 1)
           | _ \<Rightarrow>
               (AList.update doc_id (strip line) doc_id2doc, doc_id2key, doc_id + 1)))"

text \<open>The argument is the list of lines that iterating over the opened file yields.\<close>

definition read_evaluation_data ::
  "string list \<Rightarrow> (nat, string) dict \<times> (nat, string) dict" where
  "read_evaluation_data file_lines =
     (case fold read_line file_lines ([], [], 0) of
        (doc_id2doc, doc_id2key, doc_id) \<Rightarrow> (doc_id2doc, doc_id2key))"

section \<open>process_one_doc\<close>

text \<open>
  \<^verbatim>\<open>if isinstance(output, tuple) and not output[0]: output = 'Error'\<close>
\<close>

definition mark_error :: "py_output \<Rightarrow> py_output" where
  "mark_error output =
     (case output of
        Tuple ok msg \<Rightarrow> if \<not> ok then Str ''Error'' else output
      | Str s \<Rightarrow> output)"

text \<open>
  \<^verbatim>\<open>output == key\<close>, where \<open>key\<close> is a string or None (the result of
  \<^verbatim>\<open>doc_id2key.get(doc_id)\<close>): a string equals neither None nor a tuple.
\<close>

definition eq_key :: "py_output \<Rightarrow> string option \<Rightarrow> bool" where
  "eq_key output key =
     (case output of
        Str s \<Rightarrow> (case key of None \<Rightarrow> False | Some k \<Rightarrow> s = k)
      | Tuple ok msg \<Rightarrow> False)"

text \<open>
  The body of the loop over \<^verbatim>\<open>Thr.outputs.items()\<close> (lines 157 to 167), on the state
  \<open>(hits, errors, results)\<close>.
\<close>

definition process_output ::
  "string option \<Rightarrow> string \<times> py_output
     \<Rightarrow> nat counter \<times> nat counter \<times> (string, py_output) dict
     \<Rightarrow> nat counter \<times> nat counter \<times> (string, py_output) dict" where
  "process_output key = (\<lambda>(name, output0) (hits, errors, results).
     let output = mark_error output0 in
     if eq_key output key then
       (counter_incr hits name 1, errors, AList.update name output results)
     else if output \<noteq> Str ''Error'' then
       (if key = Some ''0'' \<or> output = Str ''0'' then
          (hits, counter_incr errors name 1, AList.update name output results)
        else
          (hits, counter_incr errors name 2, AList.update name output results))
     else (hits, errors, AList.update name output results))"

text \<open>\<^verbatim>\<open>[results[x.name] for x in ANALYZERS]\<close>, which raises KeyError at a missing name.\<close>

fun result_list_of :: "(string, py_output) dict \<Rightarrow> string list \<Rightarrow> py_error + py_output list" where
  "result_list_of results [] = Inr []"
| "result_list_of results (x # xs) =
     (case map_of results x of
        None \<Rightarrow> Inl KeyError
      | Some output \<Rightarrow>
          (case result_list_of results xs of
             Inl e \<Rightarrow> Inl e
           | Inr outputs \<Rightarrow> Inr (output # outputs)))"

text \<open>
  \<open>ANALYZERS\<close> is the list of the names of the registered analyzers (the code reads
  nothing else of an analyzer here). The module \<^verbatim>\<open>thr\<close> is not part of the sources:
  the parameter \<open>outputs\<close> is the list of items of \<^verbatim>\<open>Thr.outputs\<close> once every thread
  has been joined (line 155), in the order in which the loop of line 157 visits them.
\<close>

definition process_one_doc ::
  "string list \<Rightarrow> (string, py_output) dict \<Rightarrow> string option
     \<Rightarrow> py_error + (py_output list \<times> nat counter \<times> nat counter)" where
  "process_one_doc ANALYZERS outputs key =
     (case fold (process_output key) outputs ([], [], []) of
        (hits, errors, results) \<Rightarrow>
          (case result_list_of results ANALYZERS of
             Inl e \<Rightarrow> Inl e
           | Inr result_list \<Rightarrow> Inr (result_list, hits, errors)))"

section \<open>get_max_weighted_errors\<close>

definition get_max_weighted_errors :: "(nat, string) dict \<Rightarrow> real" where
  "get_max_weighted_errors doc_id2key =
     real (fold (\<lambda>gs_key max_errors.
                   if gs_key = ''0'' then max_errors + 1 else max_errors + 2)
                (map snd doc_id2key) 0)"

section \<open>evaluate\<close>

text \<open>
  A row handed to \<^verbatim>\<open>cvswriter.writerow\<close>:
  \<^verbatim>\<open>[doc_id, text, key] + results\<close>.
\<close>

record row =
  row_doc_id :: nat
  row_text :: string
  row_key :: "string option"
  row_results :: "py_output list"

text \<open>
  The program is Python 2, whose csv writer turns every field that is not a byte string
  into one with \<^verbatim>\<open>str()\<close>. That succeeds on the int \<open>doc_id\<close>, on None (an empty cell) and on
  a tuple; on a unicode string it succeeds when every character is ASCII and raises
  UnicodeEncodeError otherwise, and then nothing of the row is written. The text and the
  key are unicode strings (they come from \<^verbatim>\<open>codecs.open\<close>); a string output, which the code
  compares with the key, is taken to be one as well. \<open>Str ''Error''\<close> is ASCII.
\<close>

definition is_ascii :: "string \<Rightarrow> bool" where
  "is_ascii s = list_all (\<lambda>c. of_char c < (128 :: nat)) s"

definition cell_encodes :: "py_output \<Rightarrow> bool" where
  "cell_encodes output = (case output of Str s \<Rightarrow> is_ascii s | Tuple ok msg \<Rightarrow> True)"

definition row_encodes :: "row \<Rightarrow> bool" where
  "row_encodes r =
     (is_ascii (row_text r) \<and>
      (case row_key r of None \<Rightarrow> True | Some key \<Rightarrow> is_ascii key) \<and>
      list_all cell_encodes (row_results r))"

definition writerow :: "row \<Rightarrow> row list \<Rightarrow> py_error + row list" where
  "writerow r rows = (if row_encodes r then Inr (rows @ [r]) else Inl UnicodeEncodeError)"

text \<open>
  The loop over \<^verbatim>\<open>sorted(doc_id2text.items())\<close> (lines 199 to 206). \<open>thr doc_id text\<close>
  is what the threads started for this document leave in \<^verbatim>\<open>Thr.outputs\<close>. When
  \<^verbatim>\<open>process_one_doc\<close> or \<^verbatim>\<open>writerow\<close> raises, the rows written so far stay written. A
  Counter is true when it has an item.
\<close>

fun evaluate_docs ::
  "string list \<Rightarrow> (nat \<Rightarrow> string \<Rightarrow> (string, py_output) dict) \<Rightarrow> (nat, string) dict
     \<Rightarrow> (nat \<times> string) list \<Rightarrow> nat counter \<times> nat counter \<times> row list
     \<Rightarrow> row list \<times> (py_error + nat counter \<times> nat counter)" where
  "evaluate_docs ANALYZERS thr doc_id2key [] (total_hits, total_errors, rows) =
     (rows, Inr (total_hits, total_errors))"
| "evaluate_docs ANALYZERS thr doc_id2key ((doc_id, text) # rest)
       (total_hits, total_errors, rows) =
     (let key = map_of doc_id2key doc_id in
      case process_one_doc ANALYZERS (thr doc_id text) key of
        Inl e \<Rightarrow> (rows, Inl e)
      | Inr (results, doc_hits, doc_errors) \<Rightarrow>
          (case writerow \<lparr>row_doc_id = doc_id, row_text = text, row_key = key,
                           row_results = results\<rparr> rows of
             Inl e \<Rightarrow> (rows, Inl e)
           | Inr rows' \<Rightarrow>
               evaluate_docs ANALYZERS thr doc_id2key rest
                 (if doc_hits \<noteq> [] then counter_add total_hits doc_hits else total_hits,
                  if doc_errors \<noteq> [] then counter_add total_errors doc_errors
                  else total_errors,
                  rows')))"

text \<open>
  The loop over the analyzers (lines 211 to 214). Both operands are floats and a float
  division by zero raises ZeroDivisionError; the quotients are taken in the reals, so the
  rounding of the floats is left out.
\<close>

fun evaluate_scores ::
  "nat counter \<Rightarrow> nat counter \<Rightarrow> real \<Rightarrow> real \<Rightarrow> string list
     \<Rightarrow> real counter \<times> real counter \<Rightarrow> py_error + real counter \<times> real counter" where
  "evaluate_scores total_hits total_errors num_docs max_errors [] (accuracy, error_rate) =
     Inr (accuracy, error_rate)"
| "evaluate_scores total_hits total_errors num_docs max_errors (name # rest)
       (accuracy, error_rate) =
     (if num_docs = 0 then Inl ZeroDivisionError
      else if max_errors = 0 then Inl ZeroDivisionError
      else evaluate_scores total_hits total_errors num_docs max_errors rest
             (AList.update name (real (counter_get total_hits name) / num_docs) accuracy,
              AList.update name (real (counter_get total_errors name) / max_errors)
                error_rate))"

text \<open>
  The result has the header and the rows written to \<^verbatim>\<open>results.csv\<close>, and then either
  the exception that escaped or the returned pair \<open>(accuracy, error_rate)\<close>. The items of
  a dict have distinct keys, so sorting them sorts by \<open>doc_id\<close>. The names of the
  analyzers in the header are byte strings, as those of \<^verbatim>\<open>ANALYZERS_TO_USE\<close> are.
\<close>

definition evaluate ::
  "string list \<Rightarrow> (nat \<Rightarrow> string \<Rightarrow> (string, py_output) dict)
     \<Rightarrow> (nat, string) dict \<Rightarrow> (nat, string) dict
     \<Rightarrow> string list \<times> row list \<times> (py_error + real counter \<times> real counter)" where
  "evaluate ANALYZERS thr doc_id2text doc_id2key =
     (let col_names = [''doc_id'', ''text'', ''gold standard''] @ ANALYZERS in
      case evaluate_docs ANALYZERS thr doc_id2key (sort_key fst doc_id2text) ([], [], []) of
        (rows, Inl e) \<Rightarrow> (col_names, rows, Inl e)
      | (rows, Inr (total_hits, total_errors)) \<Rightarrow>
          (col_names, rows,
           evaluate_scores total_hits total_errors
             (real (length doc_id2text)) (get_max_weighted_errors doc_id2key)
             ANALYZERS ([], [])))"

section \<open>What one document contributes to one analyzer\<close>

text \<open>
  The loop of \<^verbatim>\<open>process_one_doc\<close> visits every name of \<^verbatim>\<open>Thr.outputs\<close> once. Read off its
  branches, \<open>doc_hit\<close> is what it adds to \<^verbatim>\<open>hits[name]\<close> and \<open>doc_error\<close> what it adds to
  \<^verbatim>\<open>errors[name]\<close>, as functions of the output stored under that name. The branch that
  adds to \<^verbatim>\<open>errors\<close> has no test for a missing key: it is taken for \<open>key = None\<close> as well.
\<close>

definition doc_hit :: "(string, py_output) dict \<Rightarrow> string option \<Rightarrow> string \<Rightarrow> nat" where
  "doc_hit outputs key name =
     (case map_of outputs name of
        None \<Rightarrow> 0
      | Some output \<Rightarrow> if eq_key (mark_error output) key then 1 else 0)"

definition doc_error :: "(string, py_output) dict \<Rightarrow> string option \<Rightarrow> string \<Rightarrow> nat" where
  "doc_error outputs key name =
     (case map_of outputs name of
        None \<Rightarrow> 0
      | Some output \<Rightarrow>
          if eq_key (mark_error output) key \<or> mark_error output = Str ''Error'' then 0
          else if key = Some ''0'' \<or> mark_error output = Str ''0'' then 1 else 2)"

text \<open>
  The weight that \<^verbatim>\<open>get_max_weighted_errors\<close> adds for one gold-standard key, and nothing
  for a document without one.
\<close>

definition max_weight :: "string option \<Rightarrow> nat" where
  "max_weight key = (case key of None \<Rightarrow> 0 | Some gs_key \<Rightarrow> if gs_key = ''0'' then 1 else 2)"

text \<open>
  The row of a document all of whose analyzers have an output, and the test for that. A
  document that fails the test makes \<^verbatim>\<open>results[x.name]\<close> raise KeyError. The row of a
  document is written when the test succeeds and the writer can encode the row.
\<close>

definition expected_row ::
  "string list \<Rightarrow> (nat \<Rightarrow> string \<Rightarrow> (string, py_output) dict) \<Rightarrow> (nat, string) dict
     \<Rightarrow> nat \<times> string \<Rightarrow> row" where
  "expected_row ANALYZERS thr doc_id2key = (\<lambda>(doc_id, text).
     \<lparr>row_doc_id = doc_id, row_text = text, row_key = map_of doc_id2key doc_id,
      row_results = map (\<lambda>x. mark_error (the (map_of (thr doc_id text) x))) ANALYZERS\<rparr>)"

definition answered :: "string list \<Rightarrow> (nat \<Rightarrow> string \<Rightarrow> (string, py_output) dict) \<Rightarrow> nat \<times> string \<Rightarrow> bool" where
  "answered ANALYZERS thr = (\<lambda>(doc_id, text). set ANALYZERS \<subseteq> fst ` set (thr doc_id text))"

definition written ::
  "string list \<Rightarrow> (nat \<Rightarrow> string \<Rightarrow> (string, py_output) dict) \<Rightarrow> (nat, string) dict
     \<Rightarrow> nat \<times> string \<Rightarrow> bool" where
  "written ANALYZERS thr doc_id2key p =
     (answered ANALYZERS thr p \<and> row_encodes (expected_row ANALYZERS thr doc_id2key p))"

text \<open>
  The number of lines that \<^verbatim>\<open>read_evaluation_data\<close> does not skip: the \<open>doc_id\<close> of a line
  is the number of such lines before it.
\<close>

definition nonblank :: "string list \<Rightarrow> nat" where
  "nonblank file_lines = length (filter (\<lambda>line. strip line \<noteq> []) file_lines)"

section \<open>Example inputs\<close>

text \<open>
  Two analyzers and three documents, the second without a gold-standard key and with a
  failed call of analyzer \<open>a\<close>. \<open>example_thr'\<close> holds the same outputs in another order.
\<close>

definition example_analyzers :: "string list" where
  "example_analyzers = [''a'', ''b'']"

definition example_thr :: "nat \<Rightarrow> string \<Rightarrow> (string, py_output) dict" where
  "example_thr doc_id text =
     (if doc_id = 1 then [(''a'', Tuple False ''timeout''), (''b'', Str ''0'')]
      else [(''b'', Str ''-''), (''a'', Str ''+'')])"

definition example_thr' :: "nat \<Rightarrow> string \<Rightarrow> (string, py_output) dict" where
  "example_thr' doc_id text =
     (if doc_id = 1 then [(''b'', Str ''0''), (''a'', Tuple False ''timeout'')]
      else [(''a'', Str ''+''), (''b'', Str ''-'')])"

definition example_lines :: "string list" where
  "example_lines =
     [''good'' @ [CHR 0x09] @ ''+'' @ [CHR 0x0A],
      [CHR 0x0A],
      ''fine'' @ [CHR 0x0A],
      ''bad'' @ [CHR 0x09] @ ''-'' @ [CHR 0x0A]]"

definition example_docs :: "(nat, string) dict" where
  "example_docs = [(0, ''good''), (1, ''fine''), (2, ''bad'')]"

definition example_keys :: "(nat, string) dict" where
  "example_keys = [(0, ''+''), (2, ''-'')]"

definition example_rows :: "row list" where
  "example_rows =
     [\<lparr>row_doc_id = 0, row_text = ''good'', row_key = Some ''+'',
       row_results = [Str ''+'', Str ''-'']\<rparr>,
      \<lparr>row_doc_id = 1, row_text = ''fine'', row_key = None,
       row_results = [Str ''Error'', Str ''0'']\<rparr>,
      \<lparr>row_doc_id = 2, row_text = ''bad'', row_key = Some ''-'',
       row_results = [Str ''+'', Str ''-'']\<rparr>]"

text \<open>
  One analyzer that answers \<open>+\<close> to every document, and the corpus of three documents
  with the keys \<open>+\<close>, \<open>-\<close> and \<open>0\<close>.
\<close>

definition always_positive :: "nat \<Rightarrow> string \<Rightarrow> (string, py_output) dict" where
  "always_positive doc_id text = [(''stub'', Str ''+'')]"

definition scenario_lines :: "string list" where
  "scenario_lines =
     [''great product'' @ [CHR 0x09] @ ''+'' @ [CHR 0x0A],
      ''terrible'' @ [CHR 0x09] @ ''-'' @ [CHR 0x0A],
      ''it'' @ [CHR 0x27] @ ''s ok'' @ [CHR 0x09] @ ''0'' @ [CHR 0x0A]]"

definition scenario_docs :: "(nat, string) dict" where
  "scenario_docs = [(0, ''great product''), (1, ''terrible''), (2, ''it'' @ [CHR 0x27] @ ''s ok'')]"

definition scenario_keys :: "(nat, string) dict" where
  "scenario_keys = [(0, ''+''), (1, ''-''), (2, ''0'')]"

definition scenario_rows :: "row list" where
  "scenario_rows =
     [\<lparr>row_doc_id = 0, row_text = ''great product'', row_key = Some ''+'',
       row_results = [Str ''+'']\<rparr>,
      \<lparr>row_doc_id = 1, row_text = ''terrible'', row_key = Some ''-'',
       row_results = [Str ''+'']\<rparr>,
      \<lparr>row_doc_id = 2, row_text = ''it'' @ [CHR 0x27] @ ''s ok'', row_key = Some ''0'',
       row_results = [Str ''+'']\<rparr>]"

text \<open>
  A corpus with a labelled and an unlabelled document, one whose labels are not among
  \<open>+\<close>, \<open>-\<close> and \<open>0\<close>, and one with no labelled document.
\<close>

definition mixed_lines :: "string list" where
  "mixed_lines = [''good'' @ [CHR 0x09] @ ''0'' @ [CHR 0x0A], ''fine'' @ [CHR 0x0A]]"

definition odd_lines :: "string list" where
  "odd_lines =
     [''good'' @ [CHR 0x09] @ ''positive'' @ [CHR 0x0A],
      [CHR 0x0A],
      ''meh'' @ [CHR 0x09, CHR 0x0A]]"

definition unlabelled_lines :: "string list" where
  "unlabelled_lines = [''fine'' @ [CHR 0x0A]]"

section \<open>Counters\<close>

lemma counter_get_Nil: "counter_get [] name = 0"
  by (simp add: counter_get_def)

lemma counter_get_update:
  "counter_get (AList.update k v c) name = (if name = k then v else counter_get c name)"
  by (simp add: counter_get_def update_conv')

lemma counter_get_incr:
  "counter_get (counter_incr c k n) name = counter_get c name + (if name = k then n else 0)"
  by (simp add: counter_incr_def counter_get_update)

lemma distinct_counter_incr:
  "distinct (map fst c) \<Longrightarrow> distinct (map fst (counter_incr c k n))"
  by (simp add: counter_incr_def distinct_update)

lemma map_of_fold_update:
  "distinct (map fst xs) \<Longrightarrow>
   map_of (fold (\<lambda>(k, v) r. if P k v then AList.update k (f k v) r else r) xs r0) x =
     (case map_of xs x of
        None \<Rightarrow> map_of r0 x
      | Some v \<Rightarrow> if P x v then Some (f x v) else map_of r0 x)"
proof (induction xs arbitrary: r0)
  case Nil
  then show ?case by simp
next
  case (Cons p xs)
  obtain k v where p: "p = (k, v)" by (cases p)
  from Cons.prems p have notin: "map_of xs k = None"
    by (simp add: map_of_eq_None_iff)
  from Cons.prems have d: "distinct (map fst xs)" by simp
  show ?case
    using Cons.IH [OF d] notin p
    by (auto simp: update_conv' split: option.splits)
qed

lemma distinct_fold_update:
  "distinct (map fst r0) \<Longrightarrow>
   distinct (map fst (fold (\<lambda>(k, v) r. if P k v then AList.update k (f k v) r else r) xs r0))"
  by (induction xs arbitrary: r0) (auto simp: distinct_update)

lemma counter_get_add:
  assumes "distinct (map fst a)" and "distinct (map fst b)"
  shows "counter_get (counter_add a b) name = counter_get a name + counter_get b name"
proof -
  define r1 where "r1 = fold (\<lambda>(elem, count) result.
               if count + counter_get b elem > 0
               then AList.update elem (count + counter_get b elem) result else result) a []"
  have r1: "map_of r1 x =
      (case map_of a x of None \<Rightarrow> None
       | Some v \<Rightarrow> if v + counter_get b x > 0 then Some (v + counter_get b x) else None)" for x
    unfolding r1_def
    using map_of_fold_update [OF assms(1), of "\<lambda>k v. v + counter_get b k > 0"
        "\<lambda>k v. v + counter_get b k" "[]" x]
    by (simp split: option.splits)
  have r2: "map_of (counter_add a b) x =
      (case map_of b x of None \<Rightarrow> map_of r1 x
       | Some v \<Rightarrow> if x \<notin> fst ` set a \<and> v > 0 then Some v else map_of r1 x)" for x
    using map_of_fold_update [OF assms(2), of "\<lambda>k v. k \<notin> fst ` set a \<and> v > 0"
        "\<lambda>k v. v" r1 x]
    by (simp add: counter_add_def Let_def r1_def split: option.splits)
  have in_a: "x \<in> fst ` set a \<longleftrightarrow> map_of a x \<noteq> None" for x
    by (simp add: map_of_eq_None_iff)
  have "counter_get (counter_add a b) name =
          (case map_of (counter_add a b) name of None \<Rightarrow> 0 | Some v \<Rightarrow> v)"
    by (simp add: counter_get_def)
  also have "\<dots> = counter_get a name + counter_get b name"
    unfolding r2 r1 in_a
    by (auto simp: counter_get_def split: option.splits)
  finally show ?thesis .
qed

lemma distinct_counter_add: "distinct (map fst (counter_add a b))"
  unfolding counter_add_def Let_def
  by (intro distinct_fold_update) simp

lemma counter_get_doc_add:
  assumes "distinct (map fst tot)" and "distinct (map fst doc)"
  shows "counter_get (if doc \<noteq> [] then counter_add tot doc else tot) n =
           counter_get tot n + counter_get doc n"
    and "distinct (map fst (if doc \<noteq> [] then counter_add tot doc else tot))"
  using assms
  by (auto simp: counter_get_add counter_get_Nil distinct_counter_add)

section \<open>The loop of process_one_doc\<close>

lemma process_output_step:
  assumes "process_output key (k, out) (h0, e0, r0) = (h, e, r)"
  shows "counter_get h n = counter_get h0 n + (if n = k then doc_hit [(k, out)] key k else 0)"
    and "counter_get e n = counter_get e0 n + (if n = k then doc_error [(k, out)] key k else 0)"
    and "map_of r n = (if n = k then Some (mark_error out) else map_of r0 n)"
    and "distinct (map fst h0) \<Longrightarrow> distinct (map fst h)"
    and "distinct (map fst e0) \<Longrightarrow> distinct (map fst e)"
  using assms
  by (auto simp: process_output_def Let_def doc_hit_def doc_error_def counter_get_incr
      distinct_counter_incr update_conv' split: if_splits)

lemma process_output_fold_all:
  assumes "distinct (map fst outputs)"
    and "fold (process_output key) outputs (h0, e0, r0) = (h, e, r)"
  shows "counter_get h n = counter_get h0 n + doc_hit outputs key n \<and>
         counter_get e n = counter_get e0 n + doc_error outputs key n \<and>
         map_of r n =
          (case map_of outputs n of None \<Rightarrow> map_of r0 n | Some out \<Rightarrow> Some (mark_error out)) \<and>
         (distinct (map fst h0) \<longrightarrow> distinct (map fst h)) \<and>
         (distinct (map fst e0) \<longrightarrow> distinct (map fst e))"
  using assms
proof (induction outputs arbitrary: h0 e0 r0)
  case Nil
  then show ?case by (simp add: doc_hit_def doc_error_def)
next
  case (Cons p outputs)
  obtain k out where p: "p = (k, out)" by (cases p)
  obtain h1 e1 r1 where step: "process_output key (k, out) (h0, e0, r0) = (h1, e1, r1)"
    by (cases "process_output key (k, out) (h0, e0, r0)")
  note st = process_output_step [OF step]
  from Cons.prems(1) p have d: "distinct (map fst outputs)" and nk: "map_of outputs k = None"
    by (simp_all add: map_of_eq_None_iff)
  from Cons.prems(2) have
    "fold (process_output key) outputs (process_output key (k, out) (h0, e0, r0)) = (h, e, r)"
    by (simp add: p)
  then have f: "fold (process_output key) outputs (h1, e1, r1) = (h, e, r)"
    unfolding step .
  note ih = Cons.IH [OF d f]
  have 1: "counter_get h n = counter_get h0 n + doc_hit (p # outputs) key n"
    using ih st(1) [of n] nk p by (auto simp: doc_hit_def)
  have 2: "counter_get e n = counter_get e0 n + doc_error (p # outputs) key n"
    using ih st(2) [of n] nk p by (auto simp: doc_error_def)
  have 3: "map_of r n = (case map_of (p # outputs) n of None \<Rightarrow> map_of r0 n
                         | Some out \<Rightarrow> Some (mark_error out))"
    using ih st(3) [of n] nk p by (auto split: option.splits)
  have 4: "distinct (map fst h0) \<longrightarrow> distinct (map fst h)"
    using ih st(4) by blast
  have 5: "distinct (map fst e0) \<longrightarrow> distinct (map fst e)"
    using ih st(5) by blast
  from 1 2 3 4 5 show ?case by blast
qed

lemma process_output_keys:
  "process_output key (k, out) (h0, e0, r0) = (h, e, r) \<Longrightarrow>
   fst ` set r = insert k (fst ` set r0)"
proof -
  assume "process_output key (k, out) (h0, e0, r0) = (h, e, r)"
  then have "r = AList.update k (mark_error out) r0"
    by (auto simp: process_output_def Let_def split: if_splits)
  then show ?thesis by (simp add: dom_update)
qed

lemma process_output_fold_keys:
  "fold (process_output key) outputs (h0, e0, r0) = (h, e, r) \<Longrightarrow>
   fst ` set r = fst ` set outputs \<union> fst ` set r0"
proof (induction outputs arbitrary: h0 e0 r0)
  case Nil
  then show ?case by simp
next
  case (Cons p outputs)
  obtain k out where p: "p = (k, out)" by (cases p)
  obtain h1 e1 r1 where step: "process_output key (k, out) (h0, e0, r0) = (h1, e1, r1)"
    by (cases "process_output key (k, out) (h0, e0, r0)")
  from Cons.prems have
    "fold (process_output key) outputs (process_output key (k, out) (h0, e0, r0)) = (h, e, r)"
    by (simp add: p)
  then have f: "fold (process_output key) outputs (h1, e1, r1) = (h, e, r)"
    unfolding step .
  show ?case
    using Cons.IH [OF f] process_output_keys [OF step] p by auto
qed

lemma result_list_of_Inr:
  "result_list_of results names = Inr result_list \<Longrightarrow>
   map Some result_list = map (map_of results) names"
  by (induction names arbitrary: result_list) (auto split: option.splits sum.splits)

lemma result_list_of_Inl:
  "result_list_of results names = Inl e \<Longrightarrow>
   e = KeyError \<and> (\<exists>x \<in> set names. map_of results x = None)"
  by (induction names) (auto split: option.splits sum.splits)

lemma result_list_of_complete:
  "set names \<subseteq> fst ` set results \<Longrightarrow> \<exists>result_list. result_list_of results names = Inr result_list"
proof (induction names)
  case Nil
  then show ?case by simp
next
  case (Cons x names)
  then obtain rl where "result_list_of results names = Inr rl" by auto
  moreover from Cons.prems obtain v where "map_of results x = Some v"
    by (cases "map_of results x") (auto simp: map_of_eq_None_iff)
  ultimately show ?case by simp
qed

lemma process_one_doc_Inr:
  assumes "distinct (map fst outputs)"
    and "process_one_doc ANALYZERS outputs key = Inr (result_list, hits, errors)"
  shows "counter_get hits n = doc_hit outputs key n"
    and "counter_get errors n = doc_error outputs key n"
    and "map Some result_list = map (\<lambda>x. map_option mark_error (map_of outputs x)) ANALYZERS"
    and "distinct (map fst hits)"
    and "distinct (map fst errors)"
proof -
  obtain h e r where f: "fold (process_output key) outputs ([], [], []) = (h, e, r)"
    by (cases "fold (process_output key) outputs ([], [], [])")
  from assms(2) f have rl: "result_list_of r ANALYZERS = Inr result_list"
    and h: "hits = h" and e: "errors = e"
    by (auto simp: process_one_doc_def split: sum.splits)
  note all = process_output_fold_all [OF assms(1) f]
  show "counter_get hits n = doc_hit outputs key n"
    using all [of n] h by (simp add: counter_get_Nil)
  show "counter_get errors n = doc_error outputs key n"
    using all [of n] e by (simp add: counter_get_Nil)
  show "distinct (map fst hits)" using all [of n] h by simp
  show "distinct (map fst errors)" using all [of n] e by simp
  have "map_of r x = map_option mark_error (map_of outputs x)" for x
    using all [of x] by (simp split: option.splits)
  then show "map Some result_list = map (\<lambda>x. map_option mark_error (map_of outputs x)) ANALYZERS"
    using result_list_of_Inr [OF rl] by simp
qed

lemma process_one_doc_Inl:
  "process_one_doc ANALYZERS outputs key = Inl e \<Longrightarrow>
   e = KeyError \<and> \<not> set ANALYZERS \<subseteq> fst ` set outputs"
proof -
  assume a: "process_one_doc ANALYZERS outputs key = Inl e"
  obtain h er r where f: "fold (process_output key) outputs ([], [], []) = (h, er, r)"
    by (cases "fold (process_output key) outputs ([], [], [])")
  from a f have "result_list_of r ANALYZERS = Inl e"
    by (auto simp: process_one_doc_def split: sum.splits)
  from result_list_of_Inl [OF this] process_output_fold_keys [OF f]
  show ?thesis by (auto simp: map_of_eq_None_iff)
qed

lemma process_one_doc_complete:
  assumes "set ANALYZERS \<subseteq> fst ` set outputs"
  shows "\<exists>result_list hits errors.
           process_one_doc ANALYZERS outputs key = Inr (result_list, hits, errors)"
  using process_one_doc_Inl [of ANALYZERS outputs key] assms
  by (cases "process_one_doc ANALYZERS outputs key") auto

lemma process_one_doc_results:
  assumes "distinct (map fst outputs)"
    and "process_one_doc ANALYZERS outputs key = Inr (result_list, hits, errors)"
  shows "result_list = map (\<lambda>x. mark_error (the (map_of outputs x))) ANALYZERS"
    and "set ANALYZERS \<subseteq> fst ` set outputs"
proof -
  note r = process_one_doc_Inr(3) [OF assms]
  have len: "length result_list = length ANALYZERS"
    using r by (metis length_map)
  have nth: "Some (result_list ! j) = map_option mark_error (map_of outputs (ANALYZERS ! j))"
    if "j < length ANALYZERS" for j
  proof -
    have "map Some result_list ! j =
        map (\<lambda>x. map_option mark_error (map_of outputs x)) ANALYZERS ! j"
      using r by simp
    with that len show ?thesis by simp
  qed
  show "result_list = map (\<lambda>x. mark_error (the (map_of outputs x))) ANALYZERS"
  proof (rule nth_equalityI)
    show "length result_list = length (map (\<lambda>x. mark_error (the (map_of outputs x))) ANALYZERS)"
      using len by simp
    fix j assume "j < length result_list"
    then have j: "j < length ANALYZERS" using len by simp
    from nth [OF j] show
      "result_list ! j = map (\<lambda>x. mark_error (the (map_of outputs x))) ANALYZERS ! j"
      using j by (cases "map_of outputs (ANALYZERS ! j)") auto
  qed
  show "set ANALYZERS \<subseteq> fst ` set outputs"
  proof
    fix x assume "x \<in> set ANALYZERS"
    then obtain j where j: "j < length ANALYZERS" "ANALYZERS ! j = x"
      by (auto simp: in_set_conv_nth)
    from nth [OF j(1)] j(2) have "map_of outputs x \<noteq> None"
      by (cases "map_of outputs x") auto
    then show "x \<in> fst ` set outputs" by (simp add: map_of_eq_None_iff)
  qed
qed

lemma doc_hit_le_1: "doc_hit outputs key name \<le> 1"
  by (simp add: doc_hit_def split: option.splits)

lemma doc_error_le_max_weight:
  "doc_error outputs (Some gs_key) name \<le> max_weight (Some gs_key)"
  by (simp add: doc_error_def max_weight_def split: option.splits)

text \<open>
  A failed call adds nothing, whatever the key, unless the key is the string \<open>Error\<close>
  itself.
\<close>

lemma failure_adds_nothing:
  assumes "distinct (map fst outputs)"
    and "(name, out) \<in> set outputs"
    and "mark_error out = Str ''Error''"
    and "key \<noteq> Some ''Error''"
    and "process_one_doc ANALYZERS outputs key = Inr (result_list, hits, errors)"
  shows "counter_get hits name = 0 \<and> counter_get errors name = 0 \<and>
         (\<forall>j < length ANALYZERS. ANALYZERS ! j = name \<longrightarrow> result_list ! j = Str ''Error'')"
proof -
  from assms(1,2) have m: "map_of outputs name = Some out" by simp
  from assms(3,4) have ne: "\<not> eq_key (mark_error out) key"
    by (auto simp: eq_key_def split: option.splits)
  note r = process_one_doc_Inr [OF assms(1,5)]
  have len: "length result_list = length ANALYZERS"
    using r(3) by (metis length_map)
  have "result_list ! j = Str ''Error''" if "j < length ANALYZERS" "ANALYZERS ! j = name" for j
  proof -
    have "map Some result_list ! j = map (\<lambda>x. map_option mark_error (map_of outputs x)) ANALYZERS ! j"
      using r(3) by simp
    then show ?thesis using that len m assms(3) by simp
  qed
  then show ?thesis
    using r(1,2) [of name] m ne assms(3)
    by (simp add: doc_hit_def doc_error_def)
qed

section \<open>The loops of evaluate\<close>

lemma evaluate_docs_Inr:
  assumes "\<forall>(doc_id, text) \<in> set docs. distinct (map fst (thr doc_id text))"
    and "distinct (map fst th)" and "distinct (map fst te)"
    and "evaluate_docs ANALYZERS thr doc_id2key docs (th, te, rows) = (rows', Inr (th', te'))"
  shows "counter_get th' n = counter_get th n +
           (\<Sum>(doc_id, text) \<leftarrow> docs. doc_hit (thr doc_id text) (map_of doc_id2key doc_id) n) \<and>
         counter_get te' n = counter_get te n +
           (\<Sum>(doc_id, text) \<leftarrow> docs. doc_error (thr doc_id text) (map_of doc_id2key doc_id) n)"
  using assms
proof (induction docs arbitrary: th te rows)
  case Nil
  then show ?case by simp
next
  case (Cons p docs)
  obtain doc_id doc where p: "p = (doc_id, doc)" by (cases p)
  let ?key = "map_of doc_id2key doc_id"
  from Cons.prems(4) p obtain results dh de where
    pod: "process_one_doc ANALYZERS (thr doc_id doc) ?key = Inr (results, dh, de)"
    by (cases "process_one_doc ANALYZERS (thr doc_id doc) ?key") (auto simp: Let_def)
  from Cons.prems(1) p have d: "distinct (map fst (thr doc_id doc))" by simp
  note r = process_one_doc_Inr [OF d pod]
  let ?th = "if dh \<noteq> [] then counter_add th dh else th"
  let ?te = "if de \<noteq> [] then counter_add te de else te"
  have rest: "evaluate_docs ANALYZERS thr doc_id2key docs
      (?th, ?te, rows @ [\<lparr>row_doc_id = doc_id, row_text = doc, row_key = ?key,
                           row_results = results\<rparr>]) = (rows', Inr (th', te'))"
    using Cons.prems(4) p pod by (simp add: Let_def writerow_def split: if_splits)
  have dd: "\<forall>(doc_id, text) \<in> set docs. distinct (map fst (thr doc_id text))"
    using Cons.prems(1) by simp
  note a = counter_get_doc_add [OF Cons.prems(2) r(4)]
  note b = counter_get_doc_add [OF Cons.prems(3) r(5)]
  from Cons.IH [OF dd a(2) b(2) rest] a(1) [of n] b(1) [of n] r(1) [of n] r(2) [of n] p
  show ?case by simp
qed

lemma evaluate_docs_Inl:
  "snd (evaluate_docs ANALYZERS thr doc_id2key docs (th, te, rows)) = Inl e \<Longrightarrow>
   e = KeyError \<or> e = UnicodeEncodeError"
proof (induction docs arbitrary: th te rows)
  case Nil
  then show ?case by simp
next
  case (Cons p docs)
  obtain doc_id doc where p: "p = (doc_id, doc)" by (cases p)
  show ?case
  proof (cases "process_one_doc ANALYZERS (thr doc_id doc) (map_of doc_id2key doc_id)")
    case (Inl e')
    with Cons.prems p process_one_doc_Inl [OF Inl] show ?thesis by (simp add: Let_def)
  next
    case (Inr r)
    obtain results dh de where "r = (results, dh, de)" by (cases r)
    with Cons.prems p Inr Cons.IH show ?thesis
      by (auto simp: Let_def writerow_def split: if_splits)
  qed
qed

lemma evaluate_docs_rows:
  assumes "\<forall>(doc_id, text) \<in> set docs. distinct (map fst (thr doc_id text))"
  shows "fst (evaluate_docs ANALYZERS thr doc_id2key docs (th, te, rows)) =
           rows @ map (expected_row ANALYZERS thr doc_id2key)
                    (takeWhile (written ANALYZERS thr doc_id2key) docs)"
  using assms
proof (induction docs arbitrary: th te rows)
  case Nil
  then show ?case by simp
next
  case (Cons p docs)
  obtain doc_id doc where p: "p = (doc_id, doc)" by (cases p)
  from Cons.prems p have d: "distinct (map fst (thr doc_id doc))" by simp
  from Cons.prems have dd: "\<forall>(doc_id, text) \<in> set docs. distinct (map fst (thr doc_id text))"
    by simp
  show ?case
  proof (cases "process_one_doc ANALYZERS (thr doc_id doc) (map_of doc_id2key doc_id)")
    case (Inl e)
    from process_one_doc_Inl [OF Inl] have "\<not> written ANALYZERS thr doc_id2key p"
      by (simp add: written_def answered_def p)
    with Inl p show ?thesis by (simp add: Let_def)
  next
    case (Inr r)
    obtain results dh de where r: "r = (results, dh, de)" by (cases r)
    note pr = process_one_doc_results [OF d Inr [unfolded r]]
    have a: "answered ANALYZERS thr p" using pr(2) by (simp add: answered_def p)
    have row: "\<lparr>row_doc_id = doc_id, row_text = doc, row_key = map_of doc_id2key doc_id,
                row_results = results\<rparr> = expected_row ANALYZERS thr doc_id2key p"
      using pr(1) by (simp add: expected_row_def p)
    show ?thesis
    proof (cases "row_encodes (expected_row ANALYZERS thr doc_id2key p)")
      case True
      with a have w: "written ANALYZERS thr doc_id2key p" by (simp add: written_def)
      show ?thesis
        using Inr r p w True row Cons.IH [OF dd]
        by (simp add: Let_def writerow_def)
    next
      case False
      then have w: "\<not> written ANALYZERS thr doc_id2key p" by (simp add: written_def)
      show ?thesis
        using Inr r p w False row
        by (simp add: Let_def writerow_def)
    qed
  qed
qed

lemma evaluate_docs_complete:
  assumes "\<forall>(doc_id, text) \<in> set docs. distinct (map fst (thr doc_id text))"
    and "\<forall>p \<in> set docs. written ANALYZERS thr doc_id2key p"
  shows "\<exists>th' te'. snd (evaluate_docs ANALYZERS thr doc_id2key docs (th, te, rows)) =
           Inr (th', te')"
  using assms
proof (induction docs arbitrary: th te rows)
  case Nil
  then show ?case by simp
next
  case (Cons p docs)
  obtain doc_id doc where p: "p = (doc_id, doc)" by (cases p)
  from Cons.prems(1) p have d: "distinct (map fst (thr doc_id doc))" by simp
  from Cons.prems(2) have w: "written ANALYZERS thr doc_id2key p" by simp
  then have "set ANALYZERS \<subseteq> fst ` set (thr doc_id doc)"
    by (simp add: written_def answered_def p)
  from process_one_doc_complete [OF this, of "map_of doc_id2key doc_id"]
  obtain results dh de where
    pod: "process_one_doc ANALYZERS (thr doc_id doc) (map_of doc_id2key doc_id) =
            Inr (results, dh, de)"
    by blast
  note pr = process_one_doc_results [OF d pod]
  have row: "\<lparr>row_doc_id = doc_id, row_text = doc, row_key = map_of doc_id2key doc_id,
              row_results = results\<rparr> = expected_row ANALYZERS thr doc_id2key p"
    using pr(1) by (simp add: expected_row_def p)
  from w have enc: "row_encodes (expected_row ANALYZERS thr doc_id2key p)"
    by (simp add: written_def)
  from Cons.prems have
    "\<forall>(doc_id, text) \<in> set docs. distinct (map fst (thr doc_id text))"
    "\<forall>p \<in> set docs. written ANALYZERS thr doc_id2key p"
    by simp_all
  from Cons.IH [OF this] show ?case
    using p pod row enc by (simp add: Let_def writerow_def)
qed

lemma evaluate_scores_degenerate:
  "num_docs = 0 \<or> max_errors = 0 \<Longrightarrow>
   evaluate_scores th te num_docs max_errors names (accuracy, error_rate) =
     (if names = [] then Inr (accuracy, error_rate) else Inl ZeroDivisionError)"
  by (cases names) auto

lemma evaluate_scores_Inr:
  assumes "num_docs \<noteq> 0" and "max_errors \<noteq> 0"
  shows "\<exists>accuracy' error_rate'.
           evaluate_scores th te num_docs max_errors names (accuracy, error_rate) =
             Inr (accuracy', error_rate') \<and>
           (\<forall>n. counter_get accuracy' n =
                  (if n \<in> set names then real (counter_get th n) / num_docs
                   else counter_get accuracy n)) \<and>
           (\<forall>n. counter_get error_rate' n =
                  (if n \<in> set names then real (counter_get te n) / max_errors
                   else counter_get error_rate n))"
  using assms
proof (induction names arbitrary: accuracy error_rate)
  case Nil
  then show ?case by simp
next
  case (Cons name names)
  let ?acc = "AList.update name (real (counter_get th name) / num_docs) accuracy"
  let ?er = "AList.update name (real (counter_get te name) / max_errors) error_rate"
  from Cons.IH [OF Cons.prems, of ?acc ?er] obtain accuracy' error_rate' where
    r: "evaluate_scores th te num_docs max_errors names (?acc, ?er) = Inr (accuracy', error_rate')"
    and a: "\<forall>n. counter_get accuracy' n =
                  (if n \<in> set names then real (counter_get th n) / num_docs
                   else counter_get ?acc n)"
    and e: "\<forall>n. counter_get error_rate' n =
                  (if n \<in> set names then real (counter_get te n) / max_errors
                   else counter_get ?er n)"
    by blast
  have "evaluate_scores th te num_docs max_errors (name # names) (accuracy, error_rate) =
          Inr (accuracy', error_rate')"
    using r Cons.prems by simp
  moreover have "\<forall>n. counter_get accuracy' n =
                  (if n \<in> set (name # names) then real (counter_get th n) / num_docs
                   else counter_get accuracy n)"
    using a by (simp add: counter_get_update)
  moreover have "\<forall>n. counter_get error_rate' n =
                  (if n \<in> set (name # names) then real (counter_get te n) / max_errors
                   else counter_get error_rate n)"
    using e by (simp add: counter_get_update)
  ultimately show ?case by blast
qed

lemma sum_list_sort_key:
  "sum_list (map f (sort_key g xs)) = (sum_list (map f xs) :: nat)"
proof (induction xs)
  case Nil
  then show ?case by simp
next
  case (Cons x xs)
  have ins: "sum_list (map f (insort_key g x ys)) = f x + sum_list (map f ys)" for ys
    by (induction ys) auto
  from Cons show ?case by (simp add: sort_key_simps ins)
qed

lemma sorted_docs_strict:
  assumes "distinct (map fst (doc_id2text :: (nat \<times> string) list))"
  shows "sorted_wrt (<) (map fst (sort_key fst doc_id2text))"
proof -
  have "distinct (map fst (sort_key fst doc_id2text))"
    using assms by (simp add: distinct_map)
  moreover have "sorted (map fst (sort_key fst doc_id2text))" by simp
  ultimately show ?thesis by (simp add: strict_sorted_iff)
qed

lemma evaluate_rows:
  assumes "\<forall>(doc_id, text) \<in> set doc_id2text. distinct (map fst (thr doc_id text))"
  shows "fst (snd (evaluate ANALYZERS thr doc_id2text doc_id2key)) =
           map (expected_row ANALYZERS thr doc_id2key)
             (takeWhile (written ANALYZERS thr doc_id2key) (sort_key fst doc_id2text))"
proof -
  let ?docs = "sort_key fst doc_id2text"
  have d: "\<forall>(doc_id, text) \<in> set ?docs. distinct (map fst (thr doc_id text))"
    using assms by simp
  obtain rs res where ed: "evaluate_docs ANALYZERS thr doc_id2key ?docs ([], [], []) = (rs, res)"
    by (cases "evaluate_docs ANALYZERS thr doc_id2key ?docs ([], [], [])")
  have "fst (snd (evaluate ANALYZERS thr doc_id2text doc_id2key)) = rs"
    using ed by (cases res) (auto simp: evaluate_def Let_def split: prod.splits)
  moreover have "rs = map (expected_row ANALYZERS thr doc_id2key)
             (takeWhile (written ANALYZERS thr doc_id2key) ?docs)"
    using evaluate_docs_rows [OF d, of ANALYZERS doc_id2key "[]" "[]" "[]"] ed by simp
  ultimately show ?thesis by simp
qed

text \<open>
  What \<open>evaluate\<close> returns for a registered analyzer, when it returns.
\<close>

lemma evaluate_Inr:
  assumes "\<forall>(doc_id, text) \<in> set doc_id2text. distinct (map fst (thr doc_id text))"
    and "evaluate ANALYZERS thr doc_id2text doc_id2key = (col_names, rows, Inr (accuracy, error_rate))"
    and "name \<in> set ANALYZERS"
  shows "doc_id2text \<noteq> []"
    and "get_max_weighted_errors doc_id2key \<noteq> 0"
    and "counter_get accuracy name =
          real (\<Sum>(doc_id, text) \<leftarrow> doc_id2text.
                  doc_hit (thr doc_id text) (map_of doc_id2key doc_id) name) /
          real (length doc_id2text)"
    and "counter_get error_rate name =
          real (\<Sum>(doc_id, text) \<leftarrow> doc_id2text.
                  doc_error (thr doc_id text) (map_of doc_id2key doc_id) name) /
          get_max_weighted_errors doc_id2key"
proof -
  let ?docs = "sort_key fst doc_id2text"
  obtain rs res where ed: "evaluate_docs ANALYZERS thr doc_id2key ?docs ([], [], []) = (rs, res)"
    by (cases "evaluate_docs ANALYZERS thr doc_id2key ?docs ([], [], [])")
  from assms(2) ed obtain th te where res: "res = Inr (th, te)"
    by (cases res) (auto simp: evaluate_def Let_def)
  from assms(2) ed res have es:
    "evaluate_scores th te (real (length doc_id2text)) (get_max_weighted_errors doc_id2key)
       ANALYZERS ([], []) = Inr (accuracy, error_rate)"
    by (simp add: evaluate_def Let_def)
  from assms(3) have ne: "ANALYZERS \<noteq> []" by auto
  have nd: "real (length doc_id2text) \<noteq> 0" and mx: "get_max_weighted_errors doc_id2key \<noteq> 0"
    using es evaluate_scores_degenerate [of "real (length doc_id2text)"
        "get_max_weighted_errors doc_id2key" th te ANALYZERS "[]" "[]"] ne
    by auto
  from nd show "doc_id2text \<noteq> []" by simp
  from mx show "get_max_weighted_errors doc_id2key \<noteq> 0" .
  from evaluate_scores_Inr [OF nd mx, of th te ANALYZERS "[]" "[]"] es assms(3)
  have acc: "counter_get accuracy name = real (counter_get th name) / real (length doc_id2text)"
    and er: "counter_get error_rate name =
               real (counter_get te name) / get_max_weighted_errors doc_id2key"
    by auto
  have d: "\<forall>(doc_id, text) \<in> set ?docs. distinct (map fst (thr doc_id text))"
    using assms(1) by simp
  from evaluate_docs_Inr [OF d _ _ ed [unfolded res], of name]
  have "counter_get th name =
          (\<Sum>(doc_id, text) \<leftarrow> ?docs. doc_hit (thr doc_id text) (map_of doc_id2key doc_id) name)"
    and "counter_get te name =
          (\<Sum>(doc_id, text) \<leftarrow> ?docs. doc_error (thr doc_id text) (map_of doc_id2key doc_id) name)"
    by (simp_all add: counter_get_Nil)
  then show "counter_get accuracy name =
          real (\<Sum>(doc_id, text) \<leftarrow> doc_id2text.
                  doc_hit (thr doc_id text) (map_of doc_id2key doc_id) name) /
          real (length doc_id2text)"
    and "counter_get error_rate name =
          real (\<Sum>(doc_id, text) \<leftarrow> doc_id2text.
                  doc_error (thr doc_id text) (map_of doc_id2key doc_id) name) /
          get_max_weighted_errors doc_id2key"
    using acc er by (simp_all only: sum_list_sort_key)
qed

section \<open>The maximum of the weighted errors\<close>

lemma fold_max_errors:
  "fold (\<lambda>gs_key max_errors. if gs_key = ''0'' then max_errors + 1 else max_errors + 2) gs m =
     m + (\<Sum>gs_key \<leftarrow> gs. if gs_key = ''0'' then 1 else 2 :: nat)"
  by (induction gs arbitrary: m) auto

lemma get_max_weighted_errors_sum:
  "get_max_weighted_errors doc_id2key =
     real (\<Sum>(doc_id, gs_key) \<leftarrow> doc_id2key. max_weight (Some gs_key))"
proof -
  have "(\<Sum>gs_key \<leftarrow> map snd doc_id2key. if gs_key = ''0'' then 1 else 2 :: nat) =
        (\<Sum>(doc_id, gs_key) \<leftarrow> doc_id2key. max_weight (Some gs_key))"
    by (induction doc_id2key) (auto simp: max_weight_def)
  then show ?thesis
    by (simp add: get_max_weighted_errors_def fold_max_errors)
qed

lemma get_max_weighted_errors_zero:
  "get_max_weighted_errors doc_id2key = 0 \<longleftrightarrow> doc_id2key = []"
proof (cases doc_id2key)
  case Nil
  then show ?thesis by (simp add: get_max_weighted_errors_sum)
next
  case (Cons p rest)
  obtain doc_id gs_key where p: "p = (doc_id, gs_key)" by (cases p)
  have "0 < max_weight (Some gs_key)" by (simp add: max_weight_def)
  then have "0 < (\<Sum>(doc_id, gs_key) \<leftarrow> doc_id2key. max_weight (Some gs_key))"
    by (simp add: Cons p)
  then have "0 < get_max_weighted_errors doc_id2key"
    unfolding get_max_weighted_errors_sum by (simp only: of_nat_0_less_iff)
  then show ?thesis using Cons by auto
qed

lemma max_weighted_errors_count:
  "get_max_weighted_errors doc_id2key =
     real (length (filter (\<lambda>(doc_id, gs_key). gs_key = ''0'') doc_id2key) +
           2 * length (filter (\<lambda>(doc_id, gs_key). gs_key \<noteq> ''0'') doc_id2key))"
proof -
  have "(\<Sum>(doc_id, gs_key) \<leftarrow> doc_id2key. max_weight (Some gs_key)) =
        length (filter (\<lambda>(doc_id, gs_key). gs_key = ''0'') doc_id2key) +
        2 * length (filter (\<lambda>(doc_id, gs_key). gs_key \<noteq> ''0'') doc_id2key)"
    by (induction doc_id2key) (auto simp: max_weight_def)
  then show ?thesis by (simp only: get_max_weighted_errors_sum)
qed

lemma sum_list_keys:
  fixes W :: "'k \<Rightarrow> nat"
  assumes "distinct (map fst xs)"
  shows "(\<Sum>p \<leftarrow> xs. W (fst p)) = sum W (fst ` set xs)"
proof -
  have "(\<Sum>p \<leftarrow> xs. W (fst p)) = sum_list (map W (map fst xs))"
    by (simp add: comp_def)
  also have "\<dots> = sum W (set (map fst xs))"
    using assms by (rule sum_list_distinct_conv_sum_set)
  finally show ?thesis by simp
qed

lemma max_weight_over_labelled:
  assumes "distinct (map fst doc_id2text)" and "distinct (map fst doc_id2key)"
    and "fst ` set doc_id2key \<subseteq> fst ` set doc_id2text"
  shows "(\<Sum>(doc_id, gs_key) \<leftarrow> doc_id2key. max_weight (Some gs_key)) =
         (\<Sum>(doc_id, text) \<leftarrow> doc_id2text. max_weight (map_of doc_id2key doc_id))"
proof -
  let ?W = "\<lambda>doc_id. max_weight (map_of doc_id2key doc_id)"
  have "(\<Sum>(doc_id, gs_key) \<leftarrow> doc_id2key. max_weight (Some gs_key)) =
        (\<Sum>p \<leftarrow> doc_id2key. ?W (fst p))"
  proof (rule arg_cong [where f = sum_list], rule map_cong [OF refl])
    fix p assume "p \<in> set doc_id2key"
    with assms(2) have "map_of doc_id2key (fst p) = Some (snd p)"
      by (cases p) simp
    then show "(case p of (doc_id, gs_key) \<Rightarrow> max_weight (Some gs_key)) = ?W (fst p)"
      by (cases p) simp
  qed
  also have "\<dots> = sum ?W (fst ` set doc_id2key)"
    by (rule sum_list_keys [OF assms(2)])
  also have "\<dots> = sum ?W (fst ` set doc_id2text)"
  proof (rule sum.mono_neutral_left [OF _ assms(3)])
    show "finite (fst ` set doc_id2text)" by simp
    show "\<forall>i \<in> fst ` set doc_id2text - fst ` set doc_id2key. ?W i = 0"
      by (auto simp: max_weight_def map_of_eq_None_iff [symmetric] split: option.splits)
  qed
  also have "\<dots> = (\<Sum>p \<leftarrow> doc_id2text. ?W (fst p))"
    by (rule sum_list_keys [OF assms(1), symmetric])
  also have "\<dots> = (\<Sum>(doc_id, text) \<leftarrow> doc_id2text. ?W doc_id)"
    by (simp add: case_prod_unfold)
  finally show ?thesis .
qed

text \<open>
  \<open>evaluate\<close> returns when there is a document and a gold-standard key and the row of
  every document is written.
\<close>

lemma evaluate_returns:
  assumes "doc_id2text \<noteq> []" and "doc_id2key \<noteq> []"
    and "\<forall>(doc_id, text) \<in> set doc_id2text. distinct (map fst (thr doc_id text))"
    and "\<forall>p \<in> set doc_id2text. written ANALYZERS thr doc_id2key p"
  shows "\<exists>rows accuracy error_rate.
           evaluate ANALYZERS thr doc_id2text doc_id2key =
             ([''doc_id'', ''text'', ''gold standard''] @ ANALYZERS, rows,
              Inr (accuracy, error_rate))"
proof -
  let ?docs = "sort_key fst doc_id2text"
  have d: "\<forall>(doc_id, text) \<in> set ?docs. distinct (map fst (thr doc_id text))"
    using assms(3) by simp
  have w: "\<forall>p \<in> set ?docs. written ANALYZERS thr doc_id2key p"
    using assms(4) by simp
  from evaluate_docs_complete [OF d w, of "[]" "[]" "[]"]
  obtain rs th te where ed:
    "evaluate_docs ANALYZERS thr doc_id2key ?docs ([], [], []) = (rs, Inr (th, te))"
    by (cases "evaluate_docs ANALYZERS thr doc_id2key ?docs ([], [], [])") auto
  have nd: "real (length doc_id2text) \<noteq> 0" using assms(1) by simp
  have mx: "get_max_weighted_errors doc_id2key \<noteq> 0"
    using assms(2) by (simp add: get_max_weighted_errors_zero)
  from evaluate_scores_Inr [OF nd mx, of th te ANALYZERS "[]" "[]"]
  obtain accuracy error_rate where
    "evaluate_scores th te (real (length doc_id2text)) (get_max_weighted_errors doc_id2key)
       ANALYZERS ([], []) = Inr (accuracy, error_rate)"
    by blast
  with ed show ?thesis by (simp add: evaluate_def Let_def)
qed

text \<open>
  Without a document, or without a gold-standard key, \<open>evaluate\<close> writes every row
  and then raises ZeroDivisionError at the first analyzer; with no analyzer it returns
  two empty Counters.
\<close>

lemma degenerate_input_ZeroDivisionError:
  assumes "length doc_id2text = 0 \<or> get_max_weighted_errors doc_id2key = 0"
    and "\<forall>(doc_id, text) \<in> set doc_id2text. distinct (map fst (thr doc_id text))"
    and "\<forall>p \<in> set doc_id2text. written ANALYZERS thr doc_id2key p"
  shows "evaluate ANALYZERS thr doc_id2text doc_id2key =
           ([''doc_id'', ''text'', ''gold standard''] @ ANALYZERS,
            map (expected_row ANALYZERS thr doc_id2key) (sort_key fst doc_id2text),
            if ANALYZERS = [] then Inr ([], []) else Inl ZeroDivisionError)"
proof -
  let ?docs = "sort_key fst doc_id2text"
  have d: "\<forall>(doc_id, text) \<in> set ?docs. distinct (map fst (thr doc_id text))"
    using assms(2) by simp
  have w: "\<forall>p \<in> set ?docs. written ANALYZERS thr doc_id2key p"
    using assms(3) by simp
  from evaluate_docs_complete [OF d w, of "[]" "[]" "[]"]
  obtain rs th te where ed:
    "evaluate_docs ANALYZERS thr doc_id2key ?docs ([], [], []) = (rs, Inr (th, te))"
    by (cases "evaluate_docs ANALYZERS thr doc_id2key ?docs ([], [], [])") auto
  have "takeWhile (written ANALYZERS thr doc_id2key) ?docs = ?docs"
    using w by (simp add: takeWhile_eq_all_conv)
  with evaluate_docs_rows [OF d, of ANALYZERS doc_id2key "[]" "[]" "[]"] ed
  have rs: "rs = map (expected_row ANALYZERS thr doc_id2key) ?docs" by simp
  have z: "real (length doc_id2text) = 0 \<or> get_max_weighted_errors doc_id2key = 0"
    using assms(1) by auto
  show ?thesis
    using ed rs evaluate_scores_degenerate [OF z, of th te ANALYZERS "[]" "[]"]
    by (simp add: evaluate_def Let_def)
qed

section \<open>Bounds of the scores\<close>

text \<open>
  The accuracy is a fraction of the documents. The error rate is at most one when every
  document has a gold-standard key.
\<close>

lemma sum_list_le_length:
  assumes "\<forall>x \<in> set xs. f x \<le> (1 :: nat)"
  shows "sum_list (map f xs) \<le> length xs"
  using assms by (induction xs) auto

lemma accuracy_in_unit_interval:
  assumes "\<forall>(doc_id, text) \<in> set doc_id2text. distinct (map fst (thr doc_id text))"
    and "evaluate ANALYZERS thr doc_id2text doc_id2key =
           (col_names, rows, Inr (accuracy, error_rate))"
    and "name \<in> set ANALYZERS"
  shows "0 \<le> counter_get accuracy name \<and> counter_get accuracy name \<le> 1"
proof -
  let ?hits = "\<Sum>(doc_id, text) \<leftarrow> doc_id2text.
                 doc_hit (thr doc_id text) (map_of doc_id2key doc_id) name"
  have "?hits \<le> length doc_id2text"
    by (rule sum_list_le_length) (auto intro: doc_hit_le_1 [simplified])
  then have "real ?hits \<le> real (length doc_id2text)" by simp
  moreover have "0 < real (length doc_id2text)"
    using evaluate_Inr(1) [OF assms] by simp
  ultimately show ?thesis
    unfolding evaluate_Inr(3) [OF assms] by simp
qed

lemma error_rate_in_unit_interval_all_labelled:
  assumes "\<forall>(doc_id, text) \<in> set doc_id2text. distinct (map fst (thr doc_id text))"
    and "evaluate ANALYZERS thr doc_id2text doc_id2key =
           (col_names, rows, Inr (accuracy, error_rate))"
    and "name \<in> set ANALYZERS"
    and "distinct (map fst doc_id2text)" and "distinct (map fst doc_id2key)"
    and "fst ` set doc_id2key = fst ` set doc_id2text"
  shows "0 \<le> counter_get error_rate name \<and> counter_get error_rate name \<le> 1"
proof -
  let ?errors = "\<Sum>(doc_id, text) \<leftarrow> doc_id2text.
                 doc_error (thr doc_id text) (map_of doc_id2key doc_id) name"
  let ?max = "\<Sum>(doc_id, text) \<leftarrow> doc_id2text. max_weight (map_of doc_id2key doc_id)"
  have sub: "fst ` set doc_id2key \<subseteq> fst ` set doc_id2text" using assms(6) by simp
  have mx: "get_max_weighted_errors doc_id2key = real ?max"
    using max_weight_over_labelled [OF assms(4,5) sub]
    by (simp only: get_max_weighted_errors_sum)
  have "?errors \<le> ?max"
  proof (rule sum_list_mono)
    fix p assume p: "p \<in> set doc_id2text"
    obtain doc_id doc where pp: "p = (doc_id, doc)" by (cases p)
    from p pp assms(6) have "doc_id \<in> fst ` set doc_id2key" by force
    then obtain gs_key where "map_of doc_id2key doc_id = Some gs_key"
      by (cases "map_of doc_id2key doc_id") (auto simp: map_of_eq_None_iff)
    then show "(case p of (doc_id, text) \<Rightarrow>
                  doc_error (thr doc_id text) (map_of doc_id2key doc_id) name)
               \<le> (case p of (doc_id, text) \<Rightarrow> max_weight (map_of doc_id2key doc_id))"
      by (simp add: pp doc_error_le_max_weight)
  qed
  then have "real ?errors \<le> real ?max" by simp
  moreover have "real ?max \<noteq> 0"
    using evaluate_Inr(2) [OF assms(1-3)] unfolding mx .
  then have "0 < real ?max" by linarith
  ultimately show ?thesis
    unfolding evaluate_Inr(4) [OF assms(1-3)] mx by simp
qed

section \<open>Reading the corpus\<close>

lemma split_tab_no_tab: "CHR 0x09 \<notin> set s \<Longrightarrow> split_tab s = [s]"
  by (induction s) auto

lemma count_list_0: "count_list s c = 0 \<Longrightarrow> c \<notin> set s"
  by (induction s) (auto split: if_splits)

lemma split_tab_one_tab:
  "count_list s (CHR 0x09) = 1 \<Longrightarrow>
   split_tab s = [takeWhile (\<lambda>c. c \<noteq> CHR 0x09) s, tl (dropWhile (\<lambda>c. c \<noteq> CHR 0x09) s)]"
proof (induction s)
  case Nil
  then show ?case by simp
next
  case (Cons c cs)
  show ?case
  proof (cases "c = CHR 0x09")
    case True
    with Cons.prems have "count_list cs (CHR 0x09) = 0" by simp
    then have "CHR 0x09 \<notin> set cs" by (rule count_list_0)
    with True show ?thesis by (simp add: split_tab_no_tab)
  next
    case False
    with Cons.prems have "count_list cs (CHR 0x09) = 1" by simp
    from Cons.IH [OF this] False show ?thesis by simp
  qed
qed

lemma read_line_one_tab:
  assumes "strip line \<noteq> []" and "count_list line (CHR 0x09) = 1"
  shows "read_line line (doc_id2doc, doc_id2key, doc_id) =
           (AList.update doc_id (strip (takeWhile (\<lambda>c. c \<noteq> CHR 0x09) line)) doc_id2doc,
            AList.update doc_id (strip (tl (dropWhile (\<lambda>c. c \<noteq> CHR 0x09) line))) doc_id2key,
            doc_id + 1)"
  using assms by (simp add: read_line_def split_tab_one_tab)

lemma read_line_cases:
  assumes "read_line line (d, k, n) = (d', k', n')"
  shows "(strip line = [] \<and> d' = d \<and> k' = k \<and> n' = n) \<or>
         (strip line \<noteq> [] \<and> n' = n + 1 \<and> (\<exists>v. d' = AList.update n v d) \<and>
          (k' = k \<or> (\<exists>v. k' = AList.update n v k)))"
  using assms
  by (auto simp: read_line_def split: if_splits list.splits)

lemma read_line_step:
  assumes "read_line line (d, k, n) = (d', k', n')"
  shows "n' = n + nonblank [line]"
    and "j < n \<Longrightarrow> map_of d' j = map_of d j"
    and "j < n \<Longrightarrow> map_of k' j = map_of k j"
    and "distinct (map fst d) \<Longrightarrow> distinct (map fst d')"
    and "distinct (map fst k) \<Longrightarrow> distinct (map fst k')"
    and "fst ` set d = {..<n} \<Longrightarrow> fst ` set d' = {..<n'}"
    and "fst ` set k \<subseteq> {..<n} \<Longrightarrow> fst ` set k' \<subseteq> {..<n'}"
proof -
  note c = read_line_cases [OF assms]
  show "n' = n + nonblank [line]"
    using c by (auto simp: nonblank_def)
  show "j < n \<Longrightarrow> map_of d' j = map_of d j"
    using c by (auto simp: update_conv')
  show "j < n \<Longrightarrow> map_of k' j = map_of k j"
    using c by (auto simp: update_conv')
  show "distinct (map fst d) \<Longrightarrow> distinct (map fst d')"
    using c by (auto simp: distinct_update)
  show "distinct (map fst k) \<Longrightarrow> distinct (map fst k')"
    using c by (auto simp: distinct_update)
  have upd: "fst ` set (AList.update n v al) = insert n (fst ` set al)" for v and al :: "(nat, string) dict"
    by (simp add: dom_update)
  show "fst ` set d' = {..<n'}" if "fst ` set d = {..<n}"
    using c
  proof
    assume "strip line = [] \<and> d' = d \<and> k' = k \<and> n' = n"
    with that show ?thesis by simp
  next
    assume "strip line \<noteq> [] \<and> n' = n + 1 \<and> (\<exists>v. d' = AList.update n v d) \<and>
          (k' = k \<or> (\<exists>v. k' = AList.update n v k))"
    then obtain v where "n' = Suc n" "d' = AList.update n v d" by auto
    with that show ?thesis by (simp only: upd lessThan_Suc)
  qed
  show "fst ` set k' \<subseteq> {..<n'}" if "fst ` set k \<subseteq> {..<n}"
    using c
  proof
    assume "strip line = [] \<and> d' = d \<and> k' = k \<and> n' = n"
    with that show ?thesis by simp
  next
    assume "strip line \<noteq> [] \<and> n' = n + 1 \<and> (\<exists>v. d' = AList.update n v d) \<and>
          (k' = k \<or> (\<exists>v. k' = AList.update n v k))"
    then have n': "n' = Suc n" and "k' = k \<or> (\<exists>v. k' = AList.update n v k)" by auto
    then have "fst ` set k' \<subseteq> insert n (fst ` set k)"
      using upd by blast
    with that show ?thesis unfolding n' lessThan_Suc by blast
  qed
qed

lemma read_lines_fold:
  assumes "fold read_line file_lines (d, k, n) = (d', k', n')"
  shows "n' = n + nonblank file_lines \<and>
         (\<forall>j < n. map_of d' j = map_of d j \<and> map_of k' j = map_of k j) \<and>
         (distinct (map fst d) \<longrightarrow> distinct (map fst d')) \<and>
         (distinct (map fst k) \<longrightarrow> distinct (map fst k')) \<and>
         (fst ` set d = {..<n} \<longrightarrow> fst ` set d' = {..<n'}) \<and>
         (fst ` set k \<subseteq> {..<n} \<longrightarrow> fst ` set k' \<subseteq> {..<n'})"
  using assms
proof (induction file_lines arbitrary: d k n)
  case Nil
  then show ?case by (simp add: nonblank_def)
next
  case (Cons line file_lines)
  obtain d1 k1 n1 where step: "read_line line (d, k, n) = (d1, k1, n1)"
    by (cases "read_line line (d, k, n)")
  from Cons.prems have "fold read_line file_lines (read_line line (d, k, n)) = (d', k', n')"
    by simp
  then have f: "fold read_line file_lines (d1, k1, n1) = (d', k', n')"
    unfolding step .
  note st = read_line_step [OF step]
  note ih = Cons.IH [OF f]
  have n1: "n \<le> n1" using st(1) by simp
  have 1: "n' = n + nonblank (line # file_lines)"
    using ih st(1) by (simp add: nonblank_def)
  have 2: "\<forall>j < n. map_of d' j = map_of d j \<and> map_of k' j = map_of k j"
    using ih st(2,3) n1 by auto
  have 3: "distinct (map fst d) \<longrightarrow> distinct (map fst d')"
    using ih st(4) by blast
  have 4: "distinct (map fst k) \<longrightarrow> distinct (map fst k')"
    using ih st(5) by blast
  have 5: "fst ` set d = {..<n} \<longrightarrow> fst ` set d' = {..<n'}"
    using ih st(6) by blast
  have 6: "fst ` set k \<subseteq> {..<n} \<longrightarrow> fst ` set k' \<subseteq> {..<n'}"
    using ih st(7) by blast
  from 1 2 3 4 5 6 show ?case by blast
qed

text \<open>
  The two dicts that \<open>read_evaluation_data\<close> returns: the documents are numbered from zero
  without gaps and every key belongs to a document.
\<close>

lemma read_evaluation_data_dicts:
  assumes "read_evaluation_data file_lines = (doc_id2doc, doc_id2key)"
  shows "distinct (map fst doc_id2doc)" and "distinct (map fst doc_id2key)"
    and "fst ` set doc_id2key \<subseteq> fst ` set doc_id2doc"
    and "fst ` set doc_id2doc = {..<nonblank file_lines}"
proof -
  obtain d k n where f: "fold read_line file_lines ([], [], 0) = (d, k, n)"
    by (cases "fold read_line file_lines ([], [], 0)")
  with assms have eq: "doc_id2doc = d" "doc_id2key = k"
    by (simp_all add: read_evaluation_data_def)
  have e: "distinct (map fst ([] :: (nat, string) dict))"
    "fst ` set ([] :: (nat, string) dict) = {..<0}"
    "fst ` set ([] :: (nat, string) dict) \<subseteq> {..<0}"
    by simp_all
  note r = read_lines_fold [OF f]
  have n: "n = nonblank file_lines" using r by simp
  have dd: "distinct (map fst d)" using r e by blast
  have dk: "distinct (map fst k)" using r e by blast
  have kd: "fst ` set d = {..<n}" using r e by blast
  have kk: "fst ` set k \<subseteq> {..<n}" using r e by blast
  from dd show "distinct (map fst doc_id2doc)" by (simp add: eq)
  from dk show "distinct (map fst doc_id2key)" by (simp add: eq)
  from kd kk show "fst ` set doc_id2key \<subseteq> fst ` set doc_id2doc" by (simp add: eq)
  from kd n show "fst ` set doc_id2doc = {..<nonblank file_lines}" by (simp add: eq)
qed

section \<open>The example inputs, evaluated\<close>

lemma example_read: "read_evaluation_data example_lines = (example_docs, example_keys)"
  by code_simp

lemma example_evaluate:
  "evaluate example_analyzers example_thr example_docs example_keys =
     ([''doc_id'', ''text'', ''gold standard'', ''a'', ''b''], example_rows,
      Inr ([(''a'', 1 / 3), (''b'', 1 / 3)], [(''a'', 1 / 2), (''b'', 3 / 4)]))"
  by code_simp

lemma example_distinct:
  "\<forall>(doc_id, text) \<in> set example_docs. distinct (map fst (example_thr doc_id text))"
  by (simp add: example_docs_def example_thr_def)

text \<open>
  A text with a character that is not ASCII stops the run at its row.
\<close>

lemma writerow_non_ascii:
  "evaluate [''stub''] always_positive [(0, ''caf'' @ [CHR 0xE9])] [] =
     ([''doc_id'', ''text'', ''gold standard'', ''stub''], [], Inl UnicodeEncodeError)"
  by code_simp

section \<open>The claims\<close>

subsection \<open>C1\<close>

text \<open>
  Claim C1: for a document whose gold label is absent no hit is counted and no weighted
  error is added for any analyzer, while the outcomes are still recorded for the row.
  The code records the outcome but adds a weighted error: with no key, the output \<open>+\<close>
  of the analyzer is not equal to the key and is not \<open>Error\<close>, so the branch that adds to
  \<^verbatim>\<open>errors\<close> is taken, with weight 2.
\<close>

theorem unlabelled_document_is_penalised:
  "process_one_doc [''stub''] (always_positive 1 ''fine'') None =
     Inr ([Str ''+''], [], [(''stub'', 2)])"
  by code_simp

subsection \<open>C2\<close>

text \<open>
  Claim C2: with at least one document and a positive maximum of the weighted errors, the
  accuracy and the error rate of every registered analyzer lie between 0 and 1. On the
  corpus of a document labelled \<open>0\<close> and an unlabelled document, an analyzer that always
  answers \<open>+\<close> gets the error rate 3: the unlabelled document adds 2 to its weighted
  errors and nothing to the maximum, which is 1.
\<close>

theorem error_rate_exceeds_one:
  "read_evaluation_data mixed_lines = ([(0, ''good''), (1, ''fine'')], [(0, ''0'')]) \<and>
   snd (snd (evaluate [''stub''] always_positive [(0, ''good''), (1, ''fine'')] [(0, ''0'')])) =
     Inr ([(''stub'', 0)], [(''stub'', 3)])"
  by code_simp

subsection \<open>C3\<close>

text \<open>
  Claim C3: with no document, or a maximum of the weighted errors of zero, the scores
  are refused with a dedicated error and not with an unhandled division by zero. The code
  has no test for either: on a corpus without a labelled document, which its docstrings
  allow, it writes the rows and then raises ZeroDivisionError at the division by the
  maximum, and on an empty corpus at the division by the number of documents.
\<close>

theorem degenerate_input_unhandled_ZeroDivisionError:
  "read_evaluation_data unlabelled_lines = ([(0, ''fine'')], []) \<and>
   get_max_weighted_errors [] = 0 \<and>
   evaluate [''stub''] always_positive [(0, ''fine'')] [] =
     ([''doc_id'', ''text'', ''gold standard'', ''stub''],
      [\<lparr>row_doc_id = 0, row_text = ''fine'', row_key = None, row_results = [Str ''+'']\<rparr>],
      Inl ZeroDivisionError) \<and>
   evaluate [''stub''] always_positive [] [] =
     ([''doc_id'', ''text'', ''gold standard'', ''stub''], [], Inl ZeroDivisionError)"
  by code_simp

subsection \<open>C4\<close>

text \<open>
  Claim C4: for an outcome that is not a failure and a present gold label that differs
  from it, no hit is counted and the weight added to the weighted errors of the analyzer
  is 1 if and only if the gold label or the predicted label is \<open>0\<close>, and 2 otherwise.
  A failure is an output that line 159 has replaced by, or that is, the string \<open>Error\<close>.
\<close>

theorem miss_weight:
  assumes "distinct (map fst outputs)"
    and "(name, out) \<in> set outputs"
    and "process_one_doc ANALYZERS outputs (Some gold) = Inr (result_list, hits, errors)"
    and "mark_error out \<noteq> Str ''Error''"
    and "mark_error out \<noteq> Str gold"
  shows "counter_get hits name = 0 \<and>
         counter_get errors name = (if gold = ''0'' \<or> mark_error out = Str ''0'' then 1 else 2)"
proof -
  from assms(1,2) have m: "map_of outputs name = Some out" by simp
  from assms(5) have ne: "\<not> eq_key (mark_error out) (Some gold)"
    by (auto simp: eq_key_def split: py_output.splits)
  show ?thesis
    using process_one_doc_Inr(1,2) [OF assms(1,3), of name] m ne assms(4)
    by (simp add: doc_hit_def doc_error_def)
qed

theorem miss_weight_witness:
  "process_one_doc example_analyzers (example_thr 2 ''bad'') (Some ''-'') =
     Inr ([Str ''+'', Str ''-''], [(''b'', 1)], [(''a'', 2)]) \<and>
   counter_get [(''b'', 1 :: nat)] ''a'' = 0 \<and> counter_get [(''a'', 2 :: nat)] ''a'' = 2 \<and>
   process_one_doc example_analyzers (example_thr 2 ''bad'') (Some ''0'') =
     Inr ([Str ''+'', Str ''-''], [], [(''b'', 1), (''a'', 1)]) \<and>
   counter_get [(''b'', 1), (''a'', 1 :: nat)] ''a'' = 1"
proof -
  have d: "distinct (map fst (example_thr 2 ''bad''))"
    and i: "(''a'', Str ''+'') \<in> set (example_thr 2 ''bad'')"
    by (simp_all add: example_thr_def)
  have p1: "process_one_doc example_analyzers (example_thr 2 ''bad'') (Some ''-'') =
     Inr ([Str ''+'', Str ''-''], [(''b'', 1)], [(''a'', 2)])"
    by code_simp
  have p2: "process_one_doc example_analyzers (example_thr 2 ''bad'') (Some ''0'') =
     Inr ([Str ''+'', Str ''-''], [], [(''b'', 1), (''a'', 1)])"
    by code_simp
  have e: "mark_error (Str ''+'') \<noteq> Str ''Error''"
    and n1: "mark_error (Str ''+'') \<noteq> Str ''-''"
    and n2: "mark_error (Str ''+'') \<noteq> Str ''0''"
    by (simp_all add: mark_error_def)
  from miss_weight [OF d i p1 e n1] miss_weight [OF d i p2 e n2] p1 p2
  show ?thesis by (simp add: mark_error_def)
qed

subsection \<open>C5\<close>

text \<open>
  Claim C5: for every gold label (\<open>+\<close>, \<open>-\<close>, \<open>0\<close> or absent), a failed call adds
  nothing to the hits and nothing to the weighted errors of its analyzer, and every cell
  of that analyzer in the row is the string \<open>Error\<close>. A failed call is an output that
  line 159 has replaced by, or that is, the string \<open>Error\<close>.
\<close>

theorem failure_scores_nothing:
  assumes "distinct (map fst outputs)"
    and "(name, out) \<in> set outputs"
    and "mark_error out = Str ''Error''"
    and "key \<in> {None, Some ''+'', Some ''-'', Some ''0''}"
    and "process_one_doc ANALYZERS outputs key = Inr (result_list, hits, errors)"
  shows "counter_get hits name = 0 \<and> counter_get errors name = 0 \<and>
         (\<forall>j < length ANALYZERS. ANALYZERS ! j = name \<longrightarrow> result_list ! j = Str ''Error'')"
proof -
  from assms(4) have "key \<noteq> Some ''Error''" by auto
  from failure_adds_nothing [OF assms(1-3) this assms(5)] show ?thesis .
qed

theorem failure_scores_nothing_witness:
  "process_one_doc example_analyzers (example_thr 1 ''fine'') (Some ''0'') =
     Inr ([Str ''Error'', Str ''0''], [(''b'', 1)], []) \<and>
   counter_get [(''b'', 1 :: nat)] ''a'' = 0 \<and> counter_get ([] :: nat counter) ''a'' = 0 \<and>
   [Str ''Error'', Str ''0''] ! 0 = Str ''Error''"
proof -
  have d: "distinct (map fst (example_thr 1 ''fine''))"
    and i: "(''a'', Tuple False ''timeout'') \<in> set (example_thr 1 ''fine'')"
    by (simp_all add: example_thr_def)
  have m: "mark_error (Tuple False ''timeout'') = Str ''Error''"
    by (simp add: mark_error_def)
  have k: "Some ''0'' \<in> {None, Some ''+'', Some ''-'', Some ''0''}" by simp
  have p: "process_one_doc example_analyzers (example_thr 1 ''fine'') (Some ''0'') =
     Inr ([Str ''Error'', Str ''0''], [(''b'', 1)], [])"
    by code_simp
  from failure_scores_nothing [OF d i m k p] p
  show ?thesis by (simp add: example_analyzers_def)
qed

subsection \<open>C6\<close>

text \<open>
  Claim C6: the accuracy of a registered analyzer is its number of hits divided by the
  number of all documents, labelled or not, whether or not a call failed on them.
\<close>

theorem accuracy_over_all_documents:
  assumes "\<forall>(doc_id, text) \<in> set doc_id2text. distinct (map fst (thr doc_id text))"
    and "evaluate ANALYZERS thr doc_id2text doc_id2key =
           (col_names, rows, Inr (accuracy, error_rate))"
    and "name \<in> set ANALYZERS"
  shows "counter_get accuracy name =
          real (\<Sum>(doc_id, text) \<leftarrow> doc_id2text.
                  doc_hit (thr doc_id text) (map_of doc_id2key doc_id) name) /
          real (length doc_id2text)"
  using evaluate_Inr(3) [OF assms] .

theorem accuracy_over_all_documents_witness:
  "evaluate example_analyzers example_thr example_docs example_keys =
     ([''doc_id'', ''text'', ''gold standard'', ''a'', ''b''], example_rows,
      Inr ([(''a'', 1 / 3), (''b'', 1 / 3)], [(''a'', 1 / 2), (''b'', 3 / 4)])) \<and>
   ''a'' \<in> set example_analyzers \<and>
   counter_get [(''a'', 1 / 3), (''b'', 1 / 3 :: real)] ''a'' =
     real (\<Sum>(doc_id, text) \<leftarrow> example_docs.
             doc_hit (example_thr doc_id text) (map_of example_keys doc_id) ''a'') /
     real (length example_docs) \<and>
   length example_docs = 3 \<and> length example_keys = 2"
proof -
  have a: "''a'' \<in> set example_analyzers" by (simp add: example_analyzers_def)
  have l: "length example_docs = 3" "length example_keys = 2"
    by (simp_all add: example_docs_def example_keys_def)
  from accuracy_over_all_documents [OF example_distinct example_evaluate a]
    example_evaluate a l
  show ?thesis by blast
qed

subsection \<open>C7\<close>

text \<open>
  Claim C7: the error rate of a registered analyzer is the sum of its weighted errors
  divided by the maximum of the weighted errors, and that maximum is the sum, over the
  documents that have a gold label, of 1 for the label \<open>0\<close> and 2 for any other.
  The sum of the weighted errors is the one the code accumulates, over all documents.
\<close>

theorem error_rate_over_max_weighted_errors:
  assumes "\<forall>(doc_id, text) \<in> set doc_id2text. distinct (map fst (thr doc_id text))"
    and "evaluate ANALYZERS thr doc_id2text doc_id2key =
           (col_names, rows, Inr (accuracy, error_rate))"
    and "name \<in> set ANALYZERS"
    and "distinct (map fst doc_id2text)" and "distinct (map fst doc_id2key)"
    and "fst ` set doc_id2key \<subseteq> fst ` set doc_id2text"
  shows "counter_get error_rate name =
          real (\<Sum>(doc_id, text) \<leftarrow> doc_id2text.
                  doc_error (thr doc_id text) (map_of doc_id2key doc_id) name) /
          get_max_weighted_errors doc_id2key \<and>
         get_max_weighted_errors doc_id2key =
          real (\<Sum>(doc_id, text) \<leftarrow> doc_id2text. max_weight (map_of doc_id2key doc_id))"
  using evaluate_Inr(4) [OF assms(1-3)] max_weight_over_labelled [OF assms(4-6)]
  by (simp only: get_max_weighted_errors_sum simp_thms)

theorem error_rate_over_max_weighted_errors_witness:
  "evaluate example_analyzers example_thr example_docs example_keys =
     ([''doc_id'', ''text'', ''gold standard'', ''a'', ''b''], example_rows,
      Inr ([(''a'', 1 / 3), (''b'', 1 / 3)], [(''a'', 1 / 2), (''b'', 3 / 4)])) \<and>
   counter_get [(''a'', 1 / 2), (''b'', 3 / 4 :: real)] ''b'' =
     real (\<Sum>(doc_id, text) \<leftarrow> example_docs.
             doc_error (example_thr doc_id text) (map_of example_keys doc_id) ''b'') /
     get_max_weighted_errors example_keys \<and>
   get_max_weighted_errors example_keys =
     real (\<Sum>(doc_id, text) \<leftarrow> example_docs. max_weight (map_of example_keys doc_id)) \<and>
   get_max_weighted_errors example_keys = 4"
proof -
  have b: "''b'' \<in> set example_analyzers" by (simp add: example_analyzers_def)
  have d: "distinct (map fst example_docs)" "distinct (map fst example_keys)"
    "fst ` set example_keys \<subseteq> fst ` set example_docs"
    by (simp_all add: example_docs_def example_keys_def)
  have m: "get_max_weighted_errors example_keys = 4"
    by (simp add: example_keys_def get_max_weighted_errors_def)
  from error_rate_over_max_weighted_errors [OF example_distinct example_evaluate b d]
    example_evaluate m
  show ?thesis by blast
qed

subsection \<open>C8\<close>

text \<open>
  Claim C8: on the corpus of three documents with the gold labels \<open>+\<close>, \<open>-\<close> and \<open>0\<close>,
  an analyzer that always answers \<open>+\<close> has one hit, the weighted errors 2 + 1 = 3 of
  a maximum of 5, the accuracy 1/3 and the error rate 3/5.
\<close>

theorem scenario_always_positive:
  "read_evaluation_data scenario_lines = (scenario_docs, scenario_keys) \<and>
   process_one_doc [''stub''] (always_positive 0 ''great product'') (Some ''+'') =
     Inr ([Str ''+''], [(''stub'', 1)], []) \<and>
   process_one_doc [''stub''] (always_positive 1 ''terrible'') (Some ''-'') =
     Inr ([Str ''+''], [], [(''stub'', 2)]) \<and>
   process_one_doc [''stub''] (always_positive 2 (''it'' @ [CHR 0x27] @ ''s ok'')) (Some ''0'') =
     Inr ([Str ''+''], [], [(''stub'', 1)]) \<and>
   evaluate_docs [''stub''] always_positive scenario_keys (sort_key fst scenario_docs)
       ([], [], []) =
     (scenario_rows, Inr ([(''stub'', 1)], [(''stub'', 3)])) \<and>
   get_max_weighted_errors scenario_keys = 5 \<and>
   evaluate [''stub''] always_positive scenario_docs scenario_keys =
     ([''doc_id'', ''text'', ''gold standard'', ''stub''], scenario_rows,
      Inr ([(''stub'', 1 / 3)], [(''stub'', 3 / 5)]))"
  by code_simp

subsection \<open>C9\<close>

text \<open>
  Claim C9: the rows are written in strictly ascending order of \<open>doc_id\<close>, the cells of
  a row are the outputs of the analyzers in the order of \<open>ANALYZERS\<close>, and the rows do not
  depend on the order in which the outputs were stored. This holds of the rows written
  before an exception as well.
\<close>

theorem rows_ordered:
  assumes "distinct (map fst doc_id2text)"
    and "\<forall>(doc_id, text) \<in> set doc_id2text.
           distinct (map fst (thr doc_id text)) \<and> distinct (map fst (thr' doc_id text)) \<and>
           set (thr' doc_id text) = set (thr doc_id text)"
    and "evaluate ANALYZERS thr doc_id2text doc_id2key = (col_names, rows, result)"
  shows "sorted_wrt (<) (map row_doc_id rows) \<and>
         (\<forall>r \<in> set rows.
            map Some (row_results r) =
              map (\<lambda>x. map_option mark_error (map_of (thr (row_doc_id r) (row_text r)) x))
                ANALYZERS) \<and>
         fst (snd (evaluate ANALYZERS thr' doc_id2text doc_id2key)) = rows"
proof -
  let ?docs = "sort_key fst doc_id2text"
  let ?done = "takeWhile (written ANALYZERS thr doc_id2key) ?docs"
  have d: "\<forall>(doc_id, text) \<in> set doc_id2text. distinct (map fst (thr doc_id text))"
    and d': "\<forall>(doc_id, text) \<in> set doc_id2text. distinct (map fst (thr' doc_id text))"
    using assms(2) by auto
  have rows: "rows = map (expected_row ANALYZERS thr doc_id2key) ?done"
    using evaluate_rows [OF d, of ANALYZERS doc_id2key] assms(3) by simp
  have ids: "map row_doc_id rows = map fst ?done"
    unfolding rows by (simp add: expected_row_def case_prod_unfold comp_def)
  have "sorted_wrt (<) (map fst ?done)"
    using sorted_docs_strict [OF assms(1)]
    by (simp add: sorted_wrt_map)
  then have 1: "sorted_wrt (<) (map row_doc_id rows)"
    by (simp only: ids)
  have 2: "map Some (row_results r) =
             map (\<lambda>x. map_option mark_error (map_of (thr (row_doc_id r) (row_text r)) x))
               ANALYZERS" if "r \<in> set rows" for r
  proof -
    from that rows obtain p where p: "p \<in> set ?done" and r: "r = expected_row ANALYZERS thr doc_id2key p"
      by auto
    obtain doc_id doc where pp: "p = (doc_id, doc)" by (cases p)
    from set_takeWhileD [OF p] have "answered ANALYZERS thr p" by (simp add: written_def)
    then have "\<forall>x \<in> set ANALYZERS. map_of (thr doc_id doc) x \<noteq> None"
      by (auto simp: answered_def pp map_of_eq_None_iff)
    then show ?thesis
      unfolding r pp by (auto simp: expected_row_def)
  qed
  have same: "map_of (thr' doc_id doc) = map_of (thr doc_id doc)"
    if "(doc_id, doc) \<in> set doc_id2text" for doc_id doc
    using assms(2) that by (auto simp: map_of_inject_set)
  have seteq: "set (thr' doc_id doc) = set (thr doc_id doc)"
    if "(doc_id, doc) \<in> set doc_id2text" for doc_id doc
    using assms(2) that by auto
  have a: "answered ANALYZERS thr' p = answered ANALYZERS thr p" if "p \<in> set ?docs" for p
    using seteq that by (cases p) (simp add: answered_def)
  have e: "expected_row ANALYZERS thr' doc_id2key p = expected_row ANALYZERS thr doc_id2key p"
    if "p \<in> set ?docs" for p
    using same that by (cases p) (simp add: expected_row_def)
  have w: "written ANALYZERS thr' doc_id2key p = written ANALYZERS thr doc_id2key p"
    if "p \<in> set ?docs" for p
    using a [OF that] e [OF that] by (simp add: written_def)
  have tw: "takeWhile (written ANALYZERS thr' doc_id2key) ?docs = ?done"
    using w by (intro takeWhile_cong) auto
  have "map (expected_row ANALYZERS thr' doc_id2key) ?done =
        map (expected_row ANALYZERS thr doc_id2key) ?done"
    using e by (intro map_cong) (auto dest: set_takeWhileD)
  then have 3: "fst (snd (evaluate ANALYZERS thr' doc_id2text doc_id2key)) = rows"
    using evaluate_rows [OF d', of ANALYZERS doc_id2key] tw rows by simp
  from 1 2 3 show ?thesis by blast
qed

theorem rows_ordered_witness:
  "evaluate example_analyzers example_thr (rev example_docs) example_keys =
     ([''doc_id'', ''text'', ''gold standard'', ''a'', ''b''], example_rows,
      Inr ([(''a'', 1 / 3), (''b'', 1 / 3)], [(''a'', 1 / 2), (''b'', 3 / 4)])) \<and>
   map fst (rev example_docs) = [2, 1, 0] \<and>
   map row_doc_id example_rows = [0, 1, 2] \<and>
   sorted_wrt (<) (map row_doc_id example_rows) \<and>
   map row_results example_rows =
     [[Str ''+'', Str ''-''], [Str ''Error'', Str ''0''], [Str ''+'', Str ''-'']] \<and>
   fst (snd (evaluate example_analyzers example_thr' (rev example_docs) example_keys)) =
     example_rows"
proof -
  have d: "distinct (map fst (rev example_docs))"
    by (simp add: example_docs_def)
  have p: "\<forall>(doc_id, text) \<in> set (rev example_docs).
           distinct (map fst (example_thr doc_id text)) \<and>
           distinct (map fst (example_thr' doc_id text)) \<and>
           set (example_thr' doc_id text) = set (example_thr doc_id text)"
    by (auto simp: example_docs_def example_thr_def example_thr'_def)
  have e: "evaluate example_analyzers example_thr (rev example_docs) example_keys =
     ([''doc_id'', ''text'', ''gold standard'', ''a'', ''b''], example_rows,
      Inr ([(''a'', 1 / 3), (''b'', 1 / 3)], [(''a'', 1 / 2), (''b'', 3 / 4)]))"
    by code_simp
  have i: "map fst (rev example_docs) = [2, 1, 0]"
    "map row_doc_id example_rows = [0, 1, 2]"
    "map row_results example_rows =
     [[Str ''+'', Str ''-''], [Str ''Error'', Str ''0''], [Str ''+'', Str ''-'']]"
    by (simp_all add: example_docs_def example_rows_def)
  from rows_ordered [OF d p e] e i
  show ?thesis by blast
qed

subsection \<open>C10\<close>

text \<open>
  Claim C10: a line that is not blank and has exactly one tab gives its document, as gold
  label, the stripped text after the tab, whatever that text is; and every label other
  than \<open>0\<close> weighs 2 in the maximum of the weighted errors.
\<close>

theorem gold_label_not_validated:
  assumes "i < length file_lines"
    and "strip (file_lines ! i) \<noteq> []"
    and "count_list (file_lines ! i) (CHR 0x09) = 1"
    and "read_evaluation_data file_lines = (doc_id2doc, doc_id2key)"
  shows "map_of doc_id2key (nonblank (take i file_lines)) =
           Some (strip (tl (dropWhile (\<lambda>c. c \<noteq> CHR 0x09) (file_lines ! i)))) \<and>
         map_of doc_id2doc (nonblank (take i file_lines)) =
           Some (strip (takeWhile (\<lambda>c. c \<noteq> CHR 0x09) (file_lines ! i))) \<and>
         get_max_weighted_errors doc_id2key =
           real (length (filter (\<lambda>(doc_id, gs_key). gs_key = ''0'') doc_id2key) +
                 2 * length (filter (\<lambda>(doc_id, gs_key). gs_key \<noteq> ''0'') doc_id2key))"
proof -
  let ?line = "file_lines ! i"
  let ?before = "take i file_lines" and ?after = "drop (Suc i) file_lines"
  have split: "file_lines = ?before @ ?line # ?after"
    using assms(1) by (rule id_take_nth_drop)
  obtain d1 k1 n1 where f1: "fold read_line ?before ([], [], 0) = (d1, k1, n1)"
    by (cases "fold read_line ?before ([], [], 0)")
  from read_lines_fold [OF f1] have n1: "n1 = nonblank ?before" by simp
  let ?key = "strip (tl (dropWhile (\<lambda>c. c \<noteq> CHR 0x09) ?line))"
  let ?doc = "strip (takeWhile (\<lambda>c. c \<noteq> CHR 0x09) ?line)"
  obtain d k n where f: "fold read_line file_lines ([], [], 0) = (d, k, n)"
    by (cases "fold read_line file_lines ([], [], 0)")
  with assms(4) have eq: "doc_id2doc = d" "doc_id2key = k"
    by (simp_all add: read_evaluation_data_def)
  have "fold read_line file_lines ([], [], 0) =
        fold read_line ?after (read_line ?line (fold read_line ?before ([], [], 0)))"
    by (subst split) simp
  then have f2: "fold read_line ?after
      (AList.update n1 ?doc d1, AList.update n1 ?key k1, n1 + 1) = (d, k, n)"
    using f f1 read_line_one_tab [OF assms(2,3)] by simp
  from read_lines_fold [OF f2] have
    "map_of d n1 = map_of (AList.update n1 ?doc d1) n1"
    "map_of k n1 = map_of (AList.update n1 ?key k1) n1"
    by simp_all
  then have "map_of doc_id2key (nonblank ?before) = Some ?key"
    and "map_of doc_id2doc (nonblank ?before) = Some ?doc"
    by (simp_all add: eq n1 update_conv')
  then show ?thesis
    using max_weighted_errors_count [of doc_id2key] by blast
qed

theorem gold_label_not_validated_witness:
  "read_evaluation_data odd_lines = ([(0, ''good''), (1, ''meh'')], [(0, ''positive''), (1, '''')]) \<and>
   nonblank (take 0 odd_lines) = 0 \<and>
   map_of [(0 :: nat, ''positive''), (1, '''')] 0 = Some ''positive'' \<and>
   nonblank (take 2 odd_lines) = 1 \<and>
   map_of [(0 :: nat, ''positive''), (1, '''')] 1 = Some '''' \<and>
   get_max_weighted_errors [(0, ''positive''), (1, '''')] = 4"
proof -
  have r: "read_evaluation_data odd_lines =
      ([(0, ''good''), (1, ''meh'')], [(0, ''positive''), (1, '''')])"
    by code_simp
  have l: "0 < length odd_lines" "2 < length odd_lines"
    by (simp_all add: odd_lines_def)
  have s: "strip (odd_lines ! 0) \<noteq> []" "strip (odd_lines ! 2) \<noteq> []"
    by code_simp+
  have c: "count_list (odd_lines ! 0) (CHR 0x09) = 1" "count_list (odd_lines ! 2) (CHR 0x09) = 1"
    by code_simp+
  have n: "nonblank (take 0 odd_lines) = 0" "nonblank (take 2 odd_lines) = 1"
    by code_simp+
  have t: "strip (tl (dropWhile (\<lambda>c. c \<noteq> CHR 0x09) (odd_lines ! 0))) = ''positive''"
    "strip (tl (dropWhile (\<lambda>c. c \<noteq> CHR 0x09) (odd_lines ! 2))) = ''''"
    by code_simp+
  have m: "get_max_weighted_errors [(0, ''positive''), (1, '''')] = 4"
    by (simp add: get_max_weighted_errors_def)
  from gold_label_not_validated [OF l(1) s(1) c(1) r]
    gold_label_not_validated [OF l(2) s(2) c(2) r] r n t m
  show ?thesis by simp
qed

end
